theory Spec2Isabelle
  imports Main "HOL-Library.Word"
begin

text \<open>
  A model of the extraction part of \<open>src/index.js\<close>: the sentence splitter
  \<open>splitBySentences\<close>, the buffer handlers, the handlers of leaf elements, line breaks and
  thematic breaks, and the tree walker \<open>processContainer\<close>. Every function of the source
  is a function of the same name here that returns what the source returns; the loops
  are recursive functions, and the object \<open>{ buffer, results }\<close> is a record. The
  presentation part of the file (canvas, timers) is not modelled.
\<close>

section \<open>Strings of the host language\<close>

text \<open>
  A JavaScript string is a sequence of 16-bit code units; \<open>text[i]\<close>, \<open>length\<close> and the
  regular expressions of \<open>src/index.js\<close> (none has the \<open>u\<close> flag) all work on code units.
\<close>

type_synonym jschar = "16 word"
type_synonym jsstring = "jschar list"

text \<open>An ASCII literal of the source, written as an Isabelle string.\<close>

definition js :: "string \<Rightarrow> jsstring" where
  "js s = map of_char s"

text \<open>\<open>PUNCTUATION_REGEX = /[.;?!]/\<close> tested on one code unit.\<close>

definition isPunct :: "jschar \<Rightarrow> bool" where
  "isPunct c \<longleftrightarrow> c = 0x2E \<or> c = 0x3B \<or> c = 0x3F \<or> c = 0x21"

text \<open>
  The class \<open>\s\<close> of ECMAScript: WhiteSpace and LineTerminator. \<open>String.prototype.trim\<close>
  strips the same set of code units.
\<close>

definition isSpace :: "jschar \<Rightarrow> bool" where
  "isSpace c \<longleftrightarrow>
     c = 0x09 \<or> c = 0x0A \<or> c = 0x0B \<or> c = 0x0C \<or> c = 0x0D \<or> c = 0x20 \<or> c = 0xA0 \<or>
     c = 0x1680 \<or> (0x2000 \<le> c \<and> c \<le> 0x200A) \<or> c = 0x2028 \<or> c = 0x2029 \<or>
     c = 0x202F \<or> c = 0x205F \<or> c = 0x3000 \<or> c = 0xFEFF"

text \<open>The class \<open>\w\<close>: \<open>[A-Za-z0-9_]\<close>.\<close>

definition isWord :: "jschar \<Rightarrow> bool" where
  "isWord c \<longleftrightarrow>
     (0x41 \<le> c \<and> c \<le> 0x5A) \<or> (0x61 \<le> c \<and> c \<le> 0x7A) \<or> (0x30 \<le> c \<and> c \<le> 0x39) \<or> c = 0x5F"

definition trimStart :: "jsstring \<Rightarrow> jsstring" where
  "trimStart s = dropWhile isSpace s"

definition trimEnd :: "jsstring \<Rightarrow> jsstring" where
  "trimEnd s = rev (dropWhile isSpace (rev s))"

definition trim :: "jsstring \<Rightarrow> jsstring" where
  "trim s = trimEnd (trimStart s)"

text \<open>\<open>PUNCTUATION_REGEX.test(line)\<close>: some code unit of the line is terminal punctuation.\<close>

definition containsPunct :: "jsstring \<Rightarrow> bool" where
  "containsPunct s \<longleftrightarrow> list_ex isPunct s"

section \<open>The sentence splitter\<close>

text \<open>
  The inner \<open>while\<close> of \<open>splitBySentences\<close>: from index \<open>j\<close>, append every consecutive
  punctuation code unit to \<open>current\<close>; returns the final \<open>j\<close> and \<open>current\<close>.
\<close>

function scanPunct :: "jsstring \<Rightarrow> nat \<Rightarrow> jsstring \<Rightarrow> nat \<times> jsstring" where
  "scanPunct text j current =
     (if j < length text \<and> isPunct (text ! j)
      then scanPunct text (j + 1) (current @ [text ! j])
      else (j, current))"
  by pat_completeness auto
termination
  by (relation "measure (\<lambda>(text, j, current). length text - j)") auto

declare scanPunct.simps [simp del]

lemma scanPunct_ge: "j \<le> fst (scanPunct s j current)"
proof (induction s j current rule: scanPunct.induct)
  case (1 s j current)
  show ?case
  proof (cases "j < length s \<and> isPunct (s ! j)")
    case True
    with 1 have "j + 1 \<le> fst (scanPunct s (j + 1) (current @ [s ! j]))"
      by simp
    with True show ?thesis
      by (subst scanPunct.simps) simp
  next
    case False
    then show ?thesis
      by (subst scanPunct.simps) auto
  qed
qed

lemma scanPunct_result_ge: "(j, current') = scanPunct s k current \<Longrightarrow> k \<le> j"
  using scanPunct_ge [of k s current] by (metis fst_conv)

text \<open>
  The \<open>for\<close> loop of \<open>splitBySentences\<close> from index \<open>i\<close>, with the accumulator
  \<open>current\<close> and the list \<open>sentences\<close>. The source sets \<open>i = j - 1\<close> and the loop header
  then increments it, so the next iteration starts at \<open>j\<close>.
\<close>

function splitLoop :: "jsstring \<Rightarrow> nat \<Rightarrow> jsstring \<Rightarrow> jsstring list \<Rightarrow> jsstring list \<times> jsstring" where
  "splitLoop text i current sentences =
     (if i < length text then
        (let current1 = current @ [text ! i] in
         if isPunct (text ! i) then
           (let (j, current2) = scanPunct text (i + 1) current1 in
            if j < length text \<and> isSpace (text ! j) then splitLoop text j [] (sentences @ [current2])
            else if j = length text then splitLoop text j [] (sentences @ [current2])
            else splitLoop text j current2 sentences)
         else splitLoop text (i + 1) current1 sentences)
      else (sentences, current))"
  by pat_completeness auto
termination
  by (relation "measure (\<lambda>(text, i, current, sentences). length text - i)")
     (auto dest: scanPunct_result_ge)

declare splitLoop.simps [simp del]

text \<open>
  \<open>splitBySentences(text)\<close>: run the loop from index 0, then push what is left in
  \<open>current\<close> unless it is empty after trimming.
\<close>

definition splitBySentences :: "jsstring \<Rightarrow> jsstring list" where
  "splitBySentences text =
     (let (sentences, current) = splitLoop text 0 [] []
      in if trim current \<noteq> [] then sentences @ [current] else sentences)"

text \<open>
  The same loop seen from the input that is still to read, \<open>drop i text\<close>: a helper for
  the proofs, shown below to compute what \<open>splitLoop\<close> computes
  (\<open>splitLoop_splitRest\<close>).
\<close>

function splitRest :: "jsstring \<Rightarrow> jsstring \<Rightarrow> jsstring list \<Rightarrow> jsstring list \<times> jsstring" where
  "splitRest [] current sentences = (sentences, current)"
| "splitRest (c # rest) current sentences =
     (if isPunct c then
        (let current2 = current @ c # takeWhile isPunct rest;
             rest' = dropWhile isPunct rest
         in if rest' = [] \<or> isSpace (hd rest') then splitRest rest' [] (sentences @ [current2])
            else splitRest rest' current2 sentences)
      else splitRest rest (current @ [c]) sentences)"
  by pat_completeness auto
termination
  by (relation "measure (\<lambda>(rest, current, sentences). length rest)")
     (auto simp: length_dropWhile_le less_Suc_eq_le)

section \<open>Document tree and content blocks\<close>

text \<open>
  What \<open>window.getComputedStyle(element)\<close> returns, as far as \<open>isVisible\<close> reads it.
\<close>

record computed_style =
  display :: string
  visibility :: string
  opacity :: string

text \<open>
  A DOM node: a text node with its data, an element with its tag name, attributes and
  child nodes, or a node of any other \<open>nodeType\<close> (a comment, a processing instruction),
  which contributes nothing to the \<open>textContent\<close> of its parent.
\<close>

datatype node =
    TextNode jsstring
  | ElementNode string "(string \<times> jsstring) list" "node list"
  | OtherNode jsstring

text \<open>
  The elements of the result array. \<open>TextBlock s\<close> is the fresh \<open>p\<close> element whose
  \<open>textContent\<close> is \<open>s\<close>; \<open>PreservedElement e\<close> is a clone of an element of the tree.
\<close>

datatype block = TextBlock jsstring | PreservedElement node

fun tagName :: "node \<Rightarrow> string" where
  "tagName (ElementNode t a cs) = t"
| "tagName (TextNode d) = []"
| "tagName (OtherNode d) = []"

fun childNodes :: "node \<Rightarrow> node list" where
  "childNodes (ElementNode t a cs) = cs"
| "childNodes (TextNode d) = []"
| "childNodes (OtherNode d) = []"

fun isElement :: "node \<Rightarrow> bool" where
  "isElement (ElementNode t a cs) = True"
| "isElement (TextNode d) = False"
| "isElement (OtherNode d) = False"

text \<open>
  \<open>node.textContent\<close>: the data of a text node; for an element the concatenated data of
  all text nodes below it, in document order.
\<close>

fun textContent :: "node \<Rightarrow> jsstring" where
  "textContent (TextNode d) = d"
| "textContent (OtherNode d) = d"
| "textContent (ElementNode t a cs) =
     concat (map (\<lambda>c. case c of OtherNode d \<Rightarrow> [] | _ \<Rightarrow> textContent c) cs)"

text \<open>
  \<open>element.textContent = s\<close>: all children are replaced by one text node holding \<open>s\<close>,
  or by nothing when \<open>s\<close> is the empty string.
\<close>

fun setTextContent :: "node \<Rightarrow> jsstring \<Rightarrow> node" where
  "setTextContent (ElementNode t a cs) s = ElementNode t a (if s = [] then [] else [TextNode s])"
| "setTextContent (TextNode d) s = TextNode s"
| "setTextContent (OtherNode d) s = OtherNode s"

definition isVisible :: "(node \<Rightarrow> computed_style) \<Rightarrow> node \<Rightarrow> bool" where
  "isVisible getComputedStyle element =
     (let style = getComputedStyle element
      in display style \<noteq> ''none'' \<and> visibility style \<noteq> ''hidden'' \<and> opacity style \<noteq> ''0'')"

text \<open>\<open>element.children.length === 0\<close>: no child is an element.\<close>

definition isLeafElement :: "node \<Rightarrow> bool" where
  "isLeafElement element \<longleftrightarrow> filter isElement (childNodes element) = []"

definition isLineBreak :: "node \<Rightarrow> bool" where
  "isLineBreak element \<longleftrightarrow> tagName element = ''BR''"

definition isThematicBreak :: "node \<Rightarrow> bool" where
  "isThematicBreak element \<longleftrightarrow> tagName element = ''HR''"

section \<open>Buffer handling\<close>

text \<open>
  Every handler of the source returns the object \<open>{ buffer, results }\<close>.
\<close>

record walk_state =
  buffer :: jsstring
  results :: "block list"

text \<open>
  The loop shared by \<open>processBufferToResults\<close> and \<open>processLineForSentences\<close>: one
  \<open>p\<close> element per sentence that is not empty after trimming, holding the trimmed text.
\<close>

fun pushSentences :: "jsstring list \<Rightarrow> block list \<Rightarrow> block list" where
  "pushSentences [] rs = rs"
| "pushSentences (sentence # rest) rs =
     pushSentences rest (if trim sentence \<noteq> [] then rs @ [TextBlock (trim sentence)] else rs)"

definition processBufferToResults :: "jsstring \<Rightarrow> block list \<Rightarrow> block list" where
  "processBufferToResults textBuffer rs =
     (if trim textBuffer = [] then rs
      else pushSentences (splitBySentences textBuffer) rs)"

definition processLineForSentences :: "jsstring \<Rightarrow> jsstring \<Rightarrow> block list \<Rightarrow> walk_state" where
  "processLineForSentences line buf rs =
     (let updatedBuffer = buf @ line;
          sentences = splitBySentences updatedBuffer
      in if length sentences > 1
         then \<lparr>buffer = last sentences, results = pushSentences (butlast sentences) rs\<rparr>
         else \<lparr>buffer = updatedBuffer, results = rs\<rparr>)"

definition flushLineBuffer :: "jsstring \<Rightarrow> block list \<Rightarrow> walk_state" where
  "flushLineBuffer buf rs =
     \<lparr>buffer = [],
      results = (if trim buf \<noteq> [] then rs @ [TextBlock (trim buf)] else rs)\<rparr>"

text \<open>\<open>text.split('\n')\<close>: the pieces between line feeds; always at least one piece.\<close>

fun splitTextIntoLines :: "jsstring \<Rightarrow> jsstring list" where
  "splitTextIntoLines [] = [[]]"
| "splitTextIntoLines (c # cs) =
     (if c = 0x0A then [] # splitTextIntoLines cs
      else (case splitTextIntoLines cs of
              [] \<Rightarrow> [[c]]
            | l # ls \<Rightarrow> (c # l) # ls))"

text \<open>
  The loop of \<open>processTextNode\<close> over the lines still to process; the line at the head is
  the last one exactly when no line follows it.
\<close>

fun processLines :: "jsstring list \<Rightarrow> jsstring \<Rightarrow> block list \<Rightarrow> walk_state" where
  "processLines [] updatedBuffer updatedResults =
     \<lparr>buffer = updatedBuffer, results = updatedResults\<rparr>"
| "processLines (line # rest) updatedBuffer updatedResults =
     (let st = (if containsPunct line
                then processLineForSentences line updatedBuffer updatedResults
                else \<lparr>buffer = updatedBuffer @ line, results = updatedResults\<rparr>);
          st' = (if rest \<noteq> [] then flushLineBuffer (buffer st) (results st) else st)
      in processLines rest (buffer st') (results st'))"

definition processTextNode :: "jsstring \<Rightarrow> jsstring \<Rightarrow> block list \<Rightarrow> walk_state" where
  "processTextNode text textBuffer containerResults =
     processLines (splitTextIntoLines text) textBuffer containerResults"

section \<open>Leaf elements and breaks\<close>

text \<open>
  \<open>getFollowingText(element)\<close> walks \<open>element.nextSibling\<close>; here it receives the list of
  the siblings that follow the element.
\<close>

fun getFollowingText :: "node list \<Rightarrow> jsstring" where
  "getFollowingText [] = []"
| "getFollowingText (TextNode d # rest) = d"
| "getFollowingText (ElementNode t a cs # rest) = []"
| "getFollowingText (OtherNode d # rest) = getFollowingText rest"

text \<open>\<open>/^[^\w\s]/.test(s)\<close>\<close>

fun startsNonWordNonSpace :: "jsstring \<Rightarrow> bool" where
  "startsNonWordNonSpace [] = False"
| "startsNonWordNonSpace (c # cs) = (\<not> isWord c \<and> \<not> isSpace c)"

text \<open>\<open>s.match(/^[.;?!]\s/)\<close> is not null\<close>

fun startsPunctSpace :: "jsstring \<Rightarrow> bool" where
  "startsPunctSpace (c # d # cs) = (isPunct c \<and> isSpace d)"
| "startsPunctSpace cs = False"

definition hasElementSurroundingText :: "jsstring \<Rightarrow> jsstring \<Rightarrow> bool" where
  "hasElementSurroundingText precedingText followingText =
     (let followingStartsWithPunctuation = startsNonWordNonSpace (trimStart followingText)
      in length precedingText > 0 \<or>
         (length (trim followingText) > 0 \<and>
          \<not> startsPunctSpace (trimStart followingText) \<and>
          followingStartsWithPunctuation))"

text \<open>\<open>s.replace(/\s+/g, ' ')\<close>\<close>

function collapseSpaces :: "jsstring \<Rightarrow> jsstring" where
  "collapseSpaces [] = []"
| "collapseSpaces (c # cs) =
     (if isSpace c then 0x20 # collapseSpaces (dropWhile isSpace cs)
      else c # collapseSpaces cs)"
  by pat_completeness auto
termination
  by (relation "measure length") (auto simp: length_dropWhile_le less_Suc_eq_le)

text \<open>\<open>s.trim().replace(/\n/g, ' ').replace(/\s+/g, ' ')\<close>\<close>

definition normalizeText :: "jsstring \<Rightarrow> jsstring" where
  "normalizeText s = collapseSpaces (map (\<lambda>c. if c = 0x0A then 0x20 else c) (trim s))"

definition processLeafElement :: "node \<Rightarrow> node list \<Rightarrow> jsstring \<Rightarrow> block list \<Rightarrow> walk_state" where
  "processLeafElement child siblings textBuffer containerResults =
     (let elementTextContent = trim (textContent child);
          precedingText = trim textBuffer;
          followingText = getFollowingText siblings;
          followingStartsWithPunctuation = startsNonWordNonSpace (trimStart followingText);
          hasSurroundingText = hasElementSurroundingText precedingText followingText
      in if hasSurroundingText \<or> followingStartsWithPunctuation
         then \<lparr>buffer = textBuffer @ elementTextContent, results = containerResults\<rparr>
         else \<lparr>buffer = [],
               results = processBufferToResults textBuffer containerResults @
                 [PreservedElement (setTextContent child (normalizeText (textContent child)))]\<rparr>)"

definition processLineBreak :: "node \<Rightarrow> jsstring \<Rightarrow> block list \<Rightarrow> walk_state" where
  "processLineBreak child textBuffer containerResults =
     \<lparr>buffer = [], results = processBufferToResults textBuffer containerResults\<rparr>"

definition processThematicBreak :: "node \<Rightarrow> jsstring \<Rightarrow> block list \<Rightarrow> walk_state" where
  "processThematicBreak child textBuffer containerResults =
     (let updatedResults = processBufferToResults textBuffer containerResults;
          clonedElement = (if textContent child \<noteq> []
                           then setTextContent child (normalizeText (textContent child))
                           else child)
      in \<lparr>buffer = [], results = updatedResults @ [PreservedElement clonedElement]\<rparr>)"

section \<open>The tree walker\<close>

text \<open>The four handlers \<open>getElementProcessor\<close> chooses from, in the order it tests them.\<close>

datatype processor =
  ProcessLineBreak | ProcessThematicBreak | ProcessLeafElement | ProcessNonLeafElement

definition getElementProcessor :: "node \<Rightarrow> processor" where
  "getElementProcessor child =
     (if isLineBreak child then ProcessLineBreak
      else if isThematicBreak child then ProcessThematicBreak
      else if isLeafElement child then ProcessLeafElement
      else ProcessNonLeafElement)"

text \<open>
  \<open>processContainer\<close> with its loop over \<open>container.childNodes\<close> (\<open>processChildren\<close>, which
  holds the children still to visit) and \<open>processNonLeafElement\<close>, which calls
  \<open>processContainer\<close> again. The first argument stands for \<open>window.getComputedStyle\<close>.
\<close>

fun processContainer :: "(node \<Rightarrow> computed_style) \<Rightarrow> node \<Rightarrow> block list"
and processChildren ::
  "(node \<Rightarrow> computed_style) \<Rightarrow> node list \<Rightarrow> jsstring \<Rightarrow> block list \<Rightarrow> walk_state"
and processNonLeafElement ::
  "(node \<Rightarrow> computed_style) \<Rightarrow> node \<Rightarrow> jsstring \<Rightarrow> block list \<Rightarrow> walk_state"
where
  "processContainer css (ElementNode t a cs) =
     (let st = processChildren css cs [] []
      in processBufferToResults (buffer st) (results st))"
| "processContainer css (TextNode d) = processBufferToResults [] []"
| "processContainer css (OtherNode d) = processBufferToResults [] []"
| "processChildren css [] textBuffer containerResults =
     \<lparr>buffer = textBuffer, results = containerResults\<rparr>"
| "processChildren css (child # rest) textBuffer containerResults =
     (case child of
        TextNode d \<Rightarrow>
          (let st = processTextNode (textContent child) textBuffer containerResults
           in processChildren css rest (buffer st) (results st))
      | ElementNode t a cs \<Rightarrow>
          (if isVisible css child then
             (let st = (case getElementProcessor child of
                          ProcessLineBreak \<Rightarrow> processLineBreak child textBuffer containerResults
                        | ProcessThematicBreak \<Rightarrow> processThematicBreak child textBuffer containerResults
                        | ProcessLeafElement \<Rightarrow> processLeafElement child rest textBuffer containerResults
                        | ProcessNonLeafElement \<Rightarrow>
                            processNonLeafElement css child textBuffer containerResults)
              in processChildren css rest (buffer st) (results st))
           else processChildren css rest textBuffer containerResults)
      | OtherNode d \<Rightarrow> processChildren css rest textBuffer containerResults)"
| "processNonLeafElement css child textBuffer containerResults =
     (let updatedResults = processBufferToResults textBuffer containerResults;
          nestedResults = processContainer css child
      in \<lparr>buffer = [], results = updatedResults @ nestedResults\<rparr>)"

text \<open>
  The decision of claim C2 in the words of the spec (section 4.3), for the buffer before
  the element and the following text, to be compared with what \<open>processLeafElement\<close>
  does. The spec tests the pattern "one terminal punctuation character, then whitespace"
  on the trimmed following text.
\<close>

definition embeddedBySpec :: "jsstring \<Rightarrow> jsstring \<Rightarrow> bool" where
  "embeddedBySpec textBuffer followingText \<longleftrightarrow>
     trim textBuffer \<noteq> [] \<or>
     (trim followingText \<noteq> [] \<and> \<not> startsPunctSpace (trim followingText) \<and>
      startsNonWordNonSpace (trimStart followingText)) \<or>
     startsNonWordNonSpace (trimStart followingText)"

text \<open>
  The normalization of a preserved element's text in the words of the spec (section 4.3:
  trim the text, collapse all internal whitespace including newlines into single
  spaces): the words of the text, that is its maximal runs of code units that are not
  whitespace, joined by single spaces. It is compared with \<open>normalizeText\<close> below.
\<close>

function wordsOf :: "jsstring \<Rightarrow> jsstring list" where
  "wordsOf s =
     (case dropWhile isSpace s of
        [] \<Rightarrow> []
      | c # cs \<Rightarrow> takeWhile (\<lambda>x. \<not> isSpace x) (c # cs) #
                 wordsOf (dropWhile (\<lambda>x. \<not> isSpace x) (c # cs)))"
  by pat_completeness auto
termination
proof (relation "measure length")
  show "wf (measure length)"
    by simp
next
  fix s :: jsstring and c cs
  assume a: "dropWhile isSpace s = c # cs"
  have "length (dropWhile (\<lambda>x. \<not> isSpace x) (c # cs)) \<le> length (c # cs)"
    by (rule length_dropWhile_le)
  moreover have "\<not> isSpace c"
    using a by (metis hd_dropWhile list.sel(1) list.distinct(1))
  then have "dropWhile (\<lambda>x. \<not> isSpace x) (c # cs) = dropWhile (\<lambda>x. \<not> isSpace x) cs"
    by simp
  moreover have "length (dropWhile (\<lambda>x. \<not> isSpace x) cs) \<le> length cs"
    by (rule length_dropWhile_le)
  moreover have "length (c # cs) \<le> length s"
    using a length_dropWhile_le [of isSpace s] by simp
  ultimately show "(dropWhile (\<lambda>x. \<not> isSpace x) (c # cs), s) \<in> measure length"
    by simp
qed

declare wordsOf.simps [simp del]

fun joinWords :: "jsstring list \<Rightarrow> jsstring" where
  "joinWords [] = []"
| "joinWords [w] = w"
| "joinWords (w # v # ws) = w @ 0x20 # joinWords (v # ws)"

text \<open>All nodes below a node, in document order.\<close>

fun descendants :: "node \<Rightarrow> node list" where
  "descendants (ElementNode t a cs) = concat (map (\<lambda>c. c # descendants c) cs)"
| "descendants (TextNode d) = []"
| "descendants (OtherNode d) = []"

text \<open>
  A computed-style environment for the examples: every \<open>SPAN\<close> element has
  \<open>display: none\<close>, every other element is shown.
\<close>

definition hiddenSpans :: "node \<Rightarrow> computed_style" where
  "hiddenSpans element =
     (if tagName element = ''SPAN''
      then \<lparr>display = ''none'', visibility = ''visible'', opacity = ''1''\<rparr>
      else \<lparr>display = ''block'', visibility = ''visible'', opacity = ''1''\<rparr>)"

section \<open>Properties of the sentence splitter\<close>

lemma scanPunct_eq:
  "scanPunct s j current =
     (j + length (takeWhile isPunct (drop j s)), current @ takeWhile isPunct (drop j s))"
proof (induction s j current rule: scanPunct.induct)
  case (1 s j current)
  show ?case
  proof (cases "j < length s \<and> isPunct (s ! j)")
    case True
    then have d: "drop j s = s ! j # drop (Suc j) s"
      by (simp add: Cons_nth_drop_Suc)
    from True 1 show ?thesis
      by (subst scanPunct.simps) (simp add: d)
  next
    case False
    show ?thesis
    proof (cases "j < length s")
      case True
      then have d: "drop j s = s ! j # drop (Suc j) s"
        by (simp add: Cons_nth_drop_Suc)
      from False True show ?thesis
        by (subst scanPunct.simps) (simp add: d)
    next
      case False
      then show ?thesis
        by (subst scanPunct.simps) simp
    qed
  qed
qed

lemma drop_takeWhile_dropWhile:
  "drop (j + length (takeWhile P (drop j s))) s = dropWhile P (drop j s)"
proof -
  have "drop (length (takeWhile P (drop j s))) (drop j s) = dropWhile P (drop j s)"
    by (metis append_eq_conv_conj takeWhile_dropWhile_id)
  then show ?thesis
    by (simp add: add.commute)
qed

lemma splitLoop_splitRest: "splitLoop s i current sentences = splitRest (drop i s) current sentences"
proof (induction s i current sentences rule: splitLoop.induct)
  case (1 s i current sentences)
  show ?case
  proof (cases "i < length s")
    case False
    then show ?thesis
      by (subst splitLoop.simps) simp
  next
    case True
    then have d: "drop i s = s ! i # drop (Suc i) s"
      by (simp add: Cons_nth_drop_Suc)
    show ?thesis
    proof (cases "isPunct (s ! i)")
      case False
      with True 1 show ?thesis
        by (subst splitLoop.simps) (simp add: d)
    next
      case p: True
      define run where "run = takeWhile isPunct (drop (Suc i) s)"
      define j where "j = Suc i + length run"
      have sc: "scanPunct s (i + 1) (current @ [s ! i]) = (j, current @ s ! i # run)"
        by (simp add: scanPunct_eq run_def j_def)
      have dj: "drop j s = dropWhile isPunct (drop (Suc i) s)"
        unfolding j_def run_def by (rule drop_takeWhile_dropWhile)
      have jle: "j \<le> length s"
        unfolding j_def run_def
        by (metis True Suc_leI add.commute le_diff_conv2 length_drop length_takeWhile_le)
      have lhs: "splitLoop s i current sentences =
          (if j < length s \<and> isSpace (s ! j) then splitLoop s j [] (sentences @ [current @ s ! i # run])
           else if j = length s then splitLoop s j [] (sentences @ [current @ s ! i # run])
           else splitLoop s j (current @ s ! i # run) sentences)"
        using True p sc by (subst splitLoop.simps) (simp add: Let_def)
      have rhs: "splitRest (drop i s) current sentences =
          (if drop j s = [] \<or> isSpace (hd (drop j s))
           then splitRest (drop j s) [] (sentences @ [current @ s ! i # run])
           else splitRest (drop j s) (current @ s ! i # run) sentences)"
        using p by (simp add: d Let_def dj [symmetric] run_def [symmetric])
      show ?thesis
      proof (cases "j < length s")
        case jlt: True
        then have hd: "hd (drop j s) = s ! j" and ne: "drop j s \<noteq> []"
          by (simp_all add: hd_drop_conv_nth)
        show ?thesis
        proof (cases "isSpace (s ! j)")
          case True
          with jlt 1(1) [OF \<open>i < length s\<close> refl p sc [symmetric] refl] show ?thesis
            by (simp add: lhs rhs hd)
        next
          case False
          with jlt 1(3) [OF \<open>i < length s\<close> refl p sc [symmetric] refl] show ?thesis
            by (simp add: lhs rhs hd ne)
        qed
      next
        case False
        with jle have je: "j = length s"
          by simp
        with 1(2) [OF \<open>i < length s\<close> refl p sc [symmetric] refl] show ?thesis
          by (simp add: lhs rhs)
      qed
    qed
  qed
qed

lemma splitBySentences_splitRest:
  "splitBySentences s =
     (let (sentences, current) = splitRest s [] []
      in if trim current \<noteq> [] then sentences @ [current] else sentences)"
  by (simp add: splitBySentences_def splitLoop_splitRest)

lemma trim_Nil_iff: "trim s = [] \<longleftrightarrow> (\<forall>c \<in> set s. isSpace c)"
proof
  assume "trim s = []"
  then have "dropWhile isSpace (rev (dropWhile isSpace s)) = []"
    by (simp add: trim_def trimEnd_def trimStart_def)
  then have a: "\<forall>c \<in> set (dropWhile isSpace s). isSpace c"
    by (simp add: dropWhile_eq_Nil_conv)
  have "dropWhile isSpace s = []"
  proof (cases "dropWhile isSpace s")
    case Nil
    then show ?thesis .
  next
    case (Cons x xs)
    then have "\<not> isSpace x"
      by (metis hd_dropWhile list.sel(1) list.distinct(1))
    with a Cons show ?thesis
      by simp
  qed
  then show "\<forall>c \<in> set s. isSpace c"
    by (simp add: dropWhile_eq_Nil_conv)
next
  assume "\<forall>c \<in> set s. isSpace c"
  then have h: "dropWhile isSpace s = []"
    by (simp add: dropWhile_eq_Nil_conv)
  show "trim s = []"
    unfolding trim_def trimEnd_def trimStart_def h by simp
qed

lemma splitRest_nonpunct:
  "\<not> isPunct c \<Longrightarrow> splitRest (c # rest) current sentences = splitRest rest (current @ [c]) sentences"
  by simp

lemma splitRest_boundary:
  "isPunct c \<Longrightarrow> dropWhile isPunct rest = [] \<or> isSpace (hd (dropWhile isPunct rest)) \<Longrightarrow>
     splitRest (c # rest) current sentences =
       splitRest (dropWhile isPunct rest) [] (sentences @ [current @ c # takeWhile isPunct rest])"
  by (simp only: splitRest.simps Let_def if_True)

lemma splitRest_continue:
  "isPunct c \<Longrightarrow> \<not> (dropWhile isPunct rest = [] \<or> isSpace (hd (dropWhile isPunct rest))) \<Longrightarrow>
     splitRest (c # rest) current sentences =
       splitRest (dropWhile isPunct rest) (current @ c # takeWhile isPunct rest) sentences"
  by (simp only: splitRest.simps Let_def if_True if_False)

declare splitRest.simps(2) [simp del]

lemma splitRest_concat:
  "splitRest xs current sentences = (ss, cur) \<Longrightarrow>
     concat ss @ cur = concat sentences @ current @ xs"
proof (induction xs current sentences arbitrary: ss cur rule: splitRest.induct)
  case (1 current sentences)
  then show ?case by simp
next
  case (2 c rest current sentences)
  have td: "takeWhile isPunct rest @ dropWhile isPunct rest = rest"
    by simp
  show ?case
  proof (cases "isPunct c")
    case False
    with 2 show ?thesis by (simp add: splitRest_nonpunct)
  next
    case True
    show ?thesis
    proof (cases "dropWhile isPunct rest = [] \<or> isSpace (hd (dropWhile isPunct rest))")
      case b: True
      from 2(4) have
        "splitRest (dropWhile isPunct rest) [] (sentences @ [current @ c # takeWhile isPunct rest]) = (ss, cur)"
        by (simp only: splitRest_boundary [OF True b])
      from 2(1) [OF True refl refl b this] show ?thesis
        using td by (metis append.assoc append_Cons append_Nil concat.simps concat_append)
    next
      case b: False
      from 2(4) have
        "splitRest (dropWhile isPunct rest) (current @ c # takeWhile isPunct rest) sentences = (ss, cur)"
        by (simp only: splitRest_continue [OF True b])
      from 2(2) [OF True refl refl b this] show ?thesis
        using td by (metis append.assoc append_Cons)
    qed
  qed
qed

lemma splitBySentences_residue:
  "\<exists>r. s = concat (splitBySentences s) @ r \<and> (\<forall>c \<in> set r. isSpace c) \<and>
       (r = [] \<or> splitBySentences s = fst (splitRest s [] []))"
proof -
  obtain ss cur where sr: "splitRest s [] [] = (ss, cur)"
    by (cases "splitRest s [] []")
  from splitRest_concat [OF sr] have c: "concat ss @ cur = s"
    by simp
  show ?thesis
  proof (cases "trim cur = []")
    case True
    then have "splitBySentences s = ss"
      by (simp add: splitBySentences_splitRest sr)
    with c True show ?thesis
      by (auto simp: trim_Nil_iff sr intro!: exI [of _ cur])
  next
    case False
    then have "splitBySentences s = ss @ [cur]"
      by (simp add: splitBySentences_splitRest sr)
    with c show ?thesis
      by (auto intro!: exI [of _ "[]"])
  qed
qed

lemma isSpace_not_isPunct: "isSpace c \<Longrightarrow> \<not> isPunct c"
  by (auto simp: isSpace_def isPunct_def)

lemma splitRest_sentences_prefix:
  "splitRest xs current (ss0 @ sentences) =
     (ss0 @ fst (splitRest xs current sentences), snd (splitRest xs current sentences))"
proof (induction xs current sentences rule: splitRest.induct)
  case (1 current sentences)
  then show ?case by simp
next
  case (2 c rest current sentences)
  show ?case
  proof (cases "isPunct c")
    case False
    with 2(3) show ?thesis
      by (simp add: splitRest_nonpunct)
  next
    case True
    show ?thesis
    proof (cases "dropWhile isPunct rest = [] \<or> isSpace (hd (dropWhile isPunct rest))")
      case b: True
      from 2(1) [OF True refl refl b] show ?thesis
        by (simp add: splitRest_boundary [OF True b])
    next
      case b: False
      from 2(2) [OF True refl refl b] show ?thesis
        by (simp add: splitRest_continue [OF True b])
    qed
  qed
qed

lemma splitRest_skip_plain:
  "\<not> containsPunct a \<Longrightarrow> splitRest (a @ xs) current sentences = splitRest xs (current @ a) sentences"
  by (induction a arbitrary: current) (simp_all add: containsPunct_def splitRest_nonpunct)

lemma run_takeWhile:
  "list_all isPunct ps \<Longrightarrow> xs = [] \<or> \<not> isPunct (hd xs) \<Longrightarrow>
     takeWhile isPunct (ps @ xs) = ps \<and> dropWhile isPunct (ps @ xs) = xs"
  by (induction ps) (auto simp: takeWhile_eq_Nil_iff dropWhile_eq_self_iff)

lemma splitRest_run:
  assumes "run \<noteq> []" "list_all isPunct run" "xs = [] \<or> \<not> isPunct (hd xs)"
  shows "splitRest (run @ xs) current sentences =
     (if xs = [] \<or> isSpace (hd xs) then splitRest xs [] (sentences @ [current @ run])
      else splitRest xs (current @ run) sentences)"
proof -
  from assms(1) obtain p ps where r: "run = p # ps"
    by (cases run) auto
  with assms(2) have p: "isPunct p" and ps: "list_all isPunct ps"
    by simp_all
  from run_takeWhile [OF ps assms(3)]
  have t: "takeWhile isPunct (ps @ xs) = ps" and d: "dropWhile isPunct (ps @ xs) = xs"
    by simp_all
  show ?thesis
  proof (cases "xs = [] \<or> isSpace (hd xs)")
    case True
    then have "dropWhile isPunct (ps @ xs) = [] \<or> isSpace (hd (dropWhile isPunct (ps @ xs)))"
      unfolding d .
    from splitRest_boundary [OF p this] True show ?thesis
      by (simp add: r t d)
  next
    case False
    then have "\<not> (dropWhile isPunct (ps @ xs) = [] \<or> isSpace (hd (dropWhile isPunct (ps @ xs))))"
      unfolding d .
    from splitRest_continue [OF p this] False show ?thesis
      by (simp add: r t d)
  qed
qed

lemma splitRest_keeps_current:
  "splitRest xs current sentences = (ss, cur) \<Longrightarrow>
     (ss = sentences \<and> (\<exists>t. cur = current @ t)) \<or> (\<exists>t fs. ss = sentences @ (current @ t) # fs)"
proof (induction xs current sentences arbitrary: ss cur rule: splitRest.induct)
  case (1 current sentences)
  then show ?case by simp
next
  case (2 c rest current sentences)
  show ?case
  proof (cases "isPunct c")
    case False
    with 2(4) have "splitRest rest (current @ [c]) sentences = (ss, cur)"
      by (simp add: splitRest_nonpunct)
    from 2(3) [OF False this] show ?thesis
      by auto
  next
    case True
    show ?thesis
    proof (cases "dropWhile isPunct rest = [] \<or> isSpace (hd (dropWhile isPunct rest))")
      case b: True
      from 2(4) have e: "splitRest (dropWhile isPunct rest) []
           (sentences @ [current @ c # takeWhile isPunct rest]) = (ss, cur)"
        by (simp only: splitRest_boundary [OF True b])
      from 2(1) [OF True refl refl b e] show ?thesis
        by auto
    next
      case b: False
      from 2(4) have e: "splitRest (dropWhile isPunct rest)
           (current @ c # takeWhile isPunct rest) sentences = (ss, cur)"
        by (simp only: splitRest_continue [OF True b])
      from 2(2) [OF True refl refl b e] show ?thesis
        by auto
    qed
  qed
qed

lemma splitBySentences_boundary:
  assumes "\<not> containsPunct a" "run \<noteq> []" "list_all isPunct run" "isSpace w"
  shows "splitBySentences (a @ run @ w # rest) = (a @ run) # splitBySentences (w # rest)"
proof -
  have "splitRest (a @ run @ w # rest) [] [] = splitRest (run @ w # rest) a []"
    using splitRest_skip_plain [OF assms(1), of "run @ w # rest" "[]" "[]"] by simp
  also have "\<dots> = splitRest (w # rest) [] [a @ run]"
    using splitRest_run [OF assms(2,3), of "w # rest" a "[]"] assms(4)
    by (simp add: isSpace_not_isPunct)
  also have "\<dots> = ([a @ run] @ fst (splitRest (w # rest) [] []), snd (splitRest (w # rest) [] []))"
    using splitRest_sentences_prefix [of "w # rest" "[]" "[a @ run]" "[]"] by simp
  finally show ?thesis
    by (simp add: splitBySentences_splitRest split: prod.splits)
qed

lemma splitBySentences_run_at_end:
  assumes "\<not> containsPunct a" "run \<noteq> []" "list_all isPunct run"
  shows "splitBySentences (a @ run) = [a @ run]"
proof -
  have "splitRest (a @ run) [] [] = splitRest run a []"
    using splitRest_skip_plain [OF assms(1), of run "[]" "[]"] by simp
  also have "\<dots> = ([a @ run], [])"
    using splitRest_run [OF assms(2,3), of "[]" a "[]"] by simp
  finally show ?thesis
    by (simp add: splitBySentences_splitRest trim_Nil_iff)
qed

lemma splitBySentences_no_boundary:
  assumes "\<not> containsPunct a" "run \<noteq> []" "list_all isPunct run" "\<not> isPunct c" "\<not> isSpace c"
  shows "\<exists>t fs. splitBySentences (a @ run @ c # rest) = (a @ run @ c # t) # fs"
proof -
  have "splitRest (a @ run @ c # rest) [] [] = splitRest (run @ c # rest) a []"
    using splitRest_skip_plain [OF assms(1), of "run @ c # rest" "[]" "[]"] by simp
  also have "\<dots> = splitRest (c # rest) (a @ run) []"
    using splitRest_run [OF assms(2,3), of "c # rest" a "[]"] assms(4,5) by simp
  also have "\<dots> = splitRest rest (a @ run @ [c]) []"
    using assms(4) by (simp add: splitRest_nonpunct)
  finally have e: "splitRest (a @ run @ c # rest) [] [] = splitRest rest (a @ run @ [c]) []" .
  obtain ss cur where sr: "splitRest rest (a @ run @ [c]) [] = (ss, cur)"
    by (cases "splitRest rest (a @ run @ [c]) []")
  from splitRest_keeps_current [OF sr]
  consider t where "ss = []" "cur = (a @ run @ [c]) @ t" | t fs where "ss = ((a @ run @ [c]) @ t) # fs"
    by auto
  then show ?thesis
  proof cases
    case 1
    then have "c \<in> set cur"
      by simp
    with assms(5) have "trim cur \<noteq> []"
      by (auto simp: trim_Nil_iff)
    with 1 show ?thesis
      by (simp add: splitBySentences_splitRest e sr)
  next
    case 2
    then show ?thesis
      by (auto simp: splitBySentences_splitRest e sr)
  qed
qed

lemma splitLoop_run:
  assumes "run \<noteq> []" "list_all isPunct run" "xs = [] \<or> \<not> isPunct (hd xs)"
  shows "splitLoop (p @ run @ xs) (length p) current sentences =
     (if xs = [] \<or> isSpace (hd xs)
      then splitLoop (p @ run @ xs) (length p + length run) [] (sentences @ [current @ run])
      else splitLoop (p @ run @ xs) (length p + length run) (current @ run) sentences)"
proof -
  have "drop (length p + length run) (p @ run @ xs) = xs"
    by (metis append.assoc append_eq_conv_conj length_append)
  then show ?thesis
    using splitRest_run [OF assms, of current sentences]
    by (simp add: splitLoop_splitRest)
qed

lemma pushSentences_eq:
  "pushSentences fs rs = rs @ map TextBlock (map trim (filter (\<lambda>s. trim s \<noteq> []) fs))"
  by (induction fs arbitrary: rs) simp_all

lemma isPunct_not_isSpace: "isPunct c \<Longrightarrow> \<not> isSpace c"
  using isSpace_not_isPunct by blast

lemma splitRest_nonblank:
  assumes "splitRest xs current sentences = (ss, cur)" "\<exists>c \<in> set current. \<not> isSpace c"
  shows "ss \<noteq> [] \<or> trim cur \<noteq> []"
proof -
  from splitRest_keeps_current [OF assms(1)]
  consider t where "cur = current @ t" | t fs where "ss = sentences @ (current @ t) # fs"
    by auto
  then show ?thesis
  proof cases
    case 1
    with assms(2) show ?thesis
      by (auto simp: trim_Nil_iff)
  next
    case 2
    then show ?thesis
      by simp
  qed
qed

lemma splitBySentences_nonempty:
  assumes "containsPunct s"
  shows "splitBySentences s \<noteq> []"
proof -
  from assms obtain a p rest where s: "s = a @ p # rest" and a: "\<not> containsPunct a" and p: "isPunct p"
    by (auto simp: containsPunct_def list_ex_iff dest!: split_list_first_prop)
  have e: "splitRest s [] [] = splitRest (p # rest) a []"
    using splitRest_skip_plain [OF a, of "p # rest" "[]" "[]"] by (simp add: s)
  obtain ss cur where sr: "splitRest s [] [] = (ss, cur)"
    by (cases "splitRest s [] []")
  have "ss \<noteq> [] \<or> trim cur \<noteq> []"
  proof (cases "dropWhile isPunct rest = [] \<or> isSpace (hd (dropWhile isPunct rest))")
    case True
    from sr e have "splitRest (dropWhile isPunct rest) [] ([a @ p # takeWhile isPunct rest] @ []) = (ss, cur)"
      by (simp add: splitRest_boundary [OF p True])
    then have "ss = [a @ p # takeWhile isPunct rest] @ fst (splitRest (dropWhile isPunct rest) [] [])"
      by (simp only: splitRest_sentences_prefix) simp
    then show ?thesis
      by simp
  next
    case False
    from sr e have c: "splitRest (dropWhile isPunct rest) (a @ p # takeWhile isPunct rest) [] = (ss, cur)"
      by (simp add: splitRest_continue [OF p False])
    have "\<exists>c \<in> set (a @ p # takeWhile isPunct rest). \<not> isSpace c"
      using isPunct_not_isSpace [OF p] by auto
    with c show ?thesis
      by (rule splitRest_nonblank)
  qed
  then show ?thesis
    by (auto simp: splitBySentences_splitRest sr)
qed

lemma splitBySentences_single:
  assumes "splitBySentences s = [f]"
  shows "\<exists>r. s = f @ r \<and> trim r = []"
  using splitBySentences_residue [of s] assms by (auto simp: trim_Nil_iff)

lemma splitTextIntoLines_not_Nil: "splitTextIntoLines s \<noteq> []"
  by (induction s) (auto split: list.splits)

lemma splitTextIntoLines_single: "0x0A \<notin> set l \<Longrightarrow> splitTextIntoLines l = [l]"
  by (induction l) auto

lemma splitTextIntoLines_newline:
  "0x0A \<notin> set l \<Longrightarrow> splitTextIntoLines (l @ 0x0A # rest) = l # splitTextIntoLines rest"
  by (induction l) auto

lemma processTextNode_newline:
  assumes "0x0A \<notin> set l"
  shows "processTextNode (l @ 0x0A # rest) buf rs =
     (let st = (if containsPunct l then processLineForSentences l buf rs
                else \<lparr>buffer = buf @ l, results = rs\<rparr>)
      in processTextNode rest [] (results (flushLineBuffer (buffer st) (results st))))"
  using splitTextIntoLines_not_Nil [of rest]
  by (simp add: processTextNode_def splitTextIntoLines_newline [OF assms] Let_def flushLineBuffer_def)

lemma processTextNode_last_line:
  assumes "0x0A \<notin> set l"
  shows "processTextNode l buf rs =
     (if containsPunct l then processLineForSentences l buf rs
      else \<lparr>buffer = buf @ l, results = rs\<rparr>)"
  by (simp add: processTextNode_def splitTextIntoLines_single [OF assms] Let_def)







section \<open>Properties of the handlers and of the walker\<close>

lemma pushSentences_append: "pushSentences fs (r0 @ rs) = r0 @ pushSentences fs rs"
  by (simp add: pushSentences_eq)

lemma processBufferToResults_append:
  "processBufferToResults buf (r0 @ rs) = r0 @ processBufferToResults buf rs"
  by (simp add: processBufferToResults_def pushSentences_append)

lemma processBufferToResults_eq:
  "processBufferToResults buf rs = rs @ processBufferToResults buf []"
  using processBufferToResults_append [of buf rs "[]"] by simp

lemma processBufferToResults_Nil [simp]: "processBufferToResults [] rs = rs"
  by (simp add: processBufferToResults_def trim_Nil_iff)

lemma processBufferToResults_blocks:
  "processBufferToResults buf rs =
     rs @ map TextBlock (if trim buf = [] then []
                         else map trim (filter (\<lambda>s. trim s \<noteq> []) (splitBySentences buf)))"
  by (simp add: processBufferToResults_def pushSentences_eq)

lemma processLineForSentences_append:
  "processLineForSentences line buf (r0 @ rs) =
     \<lparr>buffer = buffer (processLineForSentences line buf rs),
      results = r0 @ results (processLineForSentences line buf rs)\<rparr>"
  by (simp add: processLineForSentences_def Let_def pushSentences_append)

lemma flushLineBuffer_append:
  "flushLineBuffer buf (r0 @ rs) =
     \<lparr>buffer = buffer (flushLineBuffer buf rs), results = r0 @ results (flushLineBuffer buf rs)\<rparr>"
  by (simp add: flushLineBuffer_def)

lemma processLines_append:
  "processLines ls buf (r0 @ rs) =
     \<lparr>buffer = buffer (processLines ls buf rs), results = r0 @ results (processLines ls buf rs)\<rparr>"
proof (induction ls arbitrary: buf rs)
  case Nil
  then show ?case by simp
next
  case (Cons l ls)
  show ?case
    by (simp add: Let_def processLineForSentences_append flushLineBuffer_append Cons.IH)
qed

lemma processTextNode_append:
  "processTextNode s buf (r0 @ rs) =
     \<lparr>buffer = buffer (processTextNode s buf rs), results = r0 @ results (processTextNode s buf rs)\<rparr>"
  by (simp add: processTextNode_def processLines_append)

lemma processLeafElement_append:
  "processLeafElement c sibs buf (r0 @ rs) =
     \<lparr>buffer = buffer (processLeafElement c sibs buf rs),
      results = r0 @ results (processLeafElement c sibs buf rs)\<rparr>"
  by (simp add: processLeafElement_def Let_def processBufferToResults_append)

lemma processLineBreak_append:
  "processLineBreak c buf (r0 @ rs) =
     \<lparr>buffer = buffer (processLineBreak c buf rs), results = r0 @ results (processLineBreak c buf rs)\<rparr>"
  by (simp add: processLineBreak_def processBufferToResults_append)

lemma processThematicBreak_append:
  "processThematicBreak c buf (r0 @ rs) =
     \<lparr>buffer = buffer (processThematicBreak c buf rs),
      results = r0 @ results (processThematicBreak c buf rs)\<rparr>"
  by (simp add: processThematicBreak_def Let_def processBufferToResults_append)

lemma processChildren_append_results:
  "processChildren css xs buf (r0 @ rs) =
     \<lparr>buffer = buffer (processChildren css xs buf rs),
      results = r0 @ results (processChildren css xs buf rs)\<rparr>"
proof (induction xs arbitrary: buf rs)
  case Nil
  then show ?case by simp
next
  case (Cons c cs)
  show ?case
  proof (cases c)
    case (TextNode d)
    then show ?thesis
      by (simp add: Let_def processTextNode_append Cons.IH)
  next
    case (OtherNode d)
    then show ?thesis
      by (simp add: Cons.IH)
  next
    case (ElementNode t a k)
    show ?thesis
    proof (cases "isVisible css c")
      case False
      with ElementNode show ?thesis
        by (simp add: Cons.IH)
    next
      case True
      show ?thesis
      proof (cases "getElementProcessor c")
        case ProcessLineBreak
        with True ElementNode show ?thesis
          by (simp add: Let_def processLineBreak_append Cons.IH)
      next
        case ProcessThematicBreak
        with True ElementNode show ?thesis
          by (simp add: Let_def processThematicBreak_append Cons.IH)
      next
        case ProcessLeafElement
        with True ElementNode show ?thesis
          by (simp add: Let_def processLeafElement_append Cons.IH)
      next
        case ProcessNonLeafElement
        with True ElementNode show ?thesis
          by (simp add: Let_def processBufferToResults_append Cons.IH)
      qed
    qed
  qed
qed

lemma getFollowingText_cong:
  "getFollowingText ys = getFollowingText ys' \<Longrightarrow>
     getFollowingText (cs @ ys) = getFollowingText (cs @ ys')"
  by (induction cs rule: getFollowingText.induct) simp_all

lemma processLeafElement_cong:
  "getFollowingText sibs = getFollowingText sibs' \<Longrightarrow>
     processLeafElement c sibs buf rs = processLeafElement c sibs' buf rs"
  by (simp add: processLeafElement_def)

lemma processChildren_context:
  assumes "getFollowingText ys = getFollowingText ys'"
    and "\<And>b r. processChildren css ys b r = processChildren css ys' b r"
  shows "processChildren css (pre @ ys) buf rs = processChildren css (pre @ ys') buf rs"
proof (induction pre arbitrary: buf rs)
  case Nil
  then show ?case by (simp add: assms(2))
next
  case (Cons c cs)
  have "processLeafElement c (cs @ ys) buf rs = processLeafElement c (cs @ ys') buf rs"
    by (rule processLeafElement_cong) (rule getFollowingText_cong [OF assms(1)])
  then show ?case
    by (cases c) (simp_all add: Cons.IH split: processor.splits)
qed

lemma processChildren_append:
  assumes "getFollowingText ys = []"
  shows "processChildren css (pre @ ys) buf rs =
     (let st = processChildren css pre buf rs in processChildren css ys (buffer st) (results st))"
proof (induction pre arbitrary: buf rs)
  case Nil
  then show ?case by simp
next
  case (Cons c cs)
  have "getFollowingText (cs @ ys) = getFollowingText (cs @ [])"
    by (rule getFollowingText_cong) (simp add: assms)
  then have "processLeafElement c (cs @ ys) buf rs = processLeafElement c cs buf rs"
    by (simp add: processLeafElement_def)
  then show ?case
    by (cases c) (simp_all add: Cons.IH Let_def split: processor.splits)
qed

lemma getFollowingText_element: "isElement e \<Longrightarrow> getFollowingText (e # post) = []"
  by (cases e) simp_all

lemma processChildren_invisible:
  "isElement e \<Longrightarrow> \<not> isVisible css e \<Longrightarrow>
     processChildren css (e # post) buf rs = processChildren css post buf rs"
  by (cases e) simp_all

lemma getElementProcessor_HR:
  "tagName hr = ''HR'' \<Longrightarrow> getElementProcessor hr = ProcessThematicBreak"
  by (simp add: getElementProcessor_def isLineBreak_def isThematicBreak_def)

lemma processChildren_thematic_break:
  "isElement hr \<Longrightarrow> isVisible css hr \<Longrightarrow> tagName hr = ''HR'' \<Longrightarrow>
     processChildren css (hr # post) buf rs =
       processChildren css post []
         (processBufferToResults buf rs @
          [PreservedElement (if textContent hr \<noteq> []
                             then setTextContent hr (normalizeText (textContent hr)) else hr)])"
  by (cases hr) (simp_all add: getElementProcessor_HR processThematicBreak_def Let_def)

lemma processContainer_split:
  assumes "getFollowingText ys = []"
    and "\<And>b r. processChildren css ys b r = processChildren css post [] (processBufferToResults b r @ mid)"
  shows "processContainer css (ElementNode t a (pre @ ys)) =
     processContainer css (ElementNode t a pre) @ mid @ processContainer css (ElementNode t a post)"
proof -
  define st where "st = processChildren css pre [] []"
  define st' where "st' = processChildren css post [] []"
  have "processChildren css (pre @ ys) [] [] =
      processChildren css post [] ((processBufferToResults (buffer st) (results st) @ mid) @ [])"
    by (simp add: processChildren_append [OF assms(1)] assms(2) st_def Let_def)
  also have "\<dots> = \<lparr>buffer = buffer st',
      results = (processBufferToResults (buffer st) (results st) @ mid) @ results st'\<rparr>"
    unfolding st'_def by (rule processChildren_append_results)
  finally show ?thesis
    by (simp add: Let_def processBufferToResults_append st_def st'_def)
qed

lemma processContainer_children_cong:
  "processChildren css xs [] [] = processChildren css ys [] [] \<Longrightarrow>
     processContainer css (ElementNode t a xs) = processContainer css (ElementNode t a ys)"
  by simp

lemma processChildren_text:
  "processChildren css (TextNode d # rest) buf rs =
     (let st = processTextNode d buf rs in processChildren css rest (buffer st) (results st))"
  by simp

lemma processChildren_css_cong:
  assumes "\<forall>c \<in> set xs. isElement c \<longrightarrow> isVisible css c = isVisible css' c"
    and "\<forall>c \<in> set xs. processContainer css c = processContainer css' c"
  shows "processChildren css xs buf rs = processChildren css' xs buf rs"
  using assms
proof (induction xs arbitrary: buf rs)
  case Nil
  then show ?case by simp
next
  case (Cons c cs)
  then have ih: "processChildren css cs b r = processChildren css' cs b r" for b r
    by simp
  from Cons.prems have v: "isElement c \<longrightarrow> isVisible css c = isVisible css' c"
    and n: "processContainer css c = processContainer css' c"
    by simp_all
  show ?case
    using v n by (cases c) (simp_all add: ih Let_def split: processor.splits)
qed

lemma processContainer_css_cong:
  "(\<forall>e \<in> set (descendants c). isElement e \<longrightarrow> isVisible css e = isVisible css' e) \<Longrightarrow>
     processContainer css c = processContainer css' c"
proof (induction c)
  case (TextNode d)
  then show ?case by simp
next
  case (OtherNode d)
  then show ?case by simp
next
  case (ElementNode t a cs)
  have "processChildren css cs [] [] = processChildren css' cs [] []"
  proof (rule processChildren_css_cong)
    from ElementNode.prems show "\<forall>c \<in> set cs. isElement c \<longrightarrow> isVisible css c = isVisible css' c"
      by auto
    show "\<forall>c \<in> set cs. processContainer css c = processContainer css' c"
    proof
      fix c assume c: "c \<in> set cs"
      with ElementNode.prems
      have "\<forall>e \<in> set (descendants c). isElement e \<longrightarrow> isVisible css e = isVisible css' e"
        by auto
      then show "processContainer css c = processContainer css' c"
        by (rule ElementNode.IH [OF c])
    qed
  qed
  then show ?case by simp
qed

lemma leaf_condition_iff:
  "hasElementSurroundingText (trim buf) following \<or> startsNonWordNonSpace (trimStart following)
     \<longleftrightarrow> embeddedBySpec buf following"
  by (auto simp: hasElementSurroundingText_def embeddedBySpec_def Let_def)

lemma processLeafElement_embedded:
  "embeddedBySpec buf (getFollowingText sibs) \<Longrightarrow>
     processLeafElement child sibs buf rs = \<lparr>buffer = buf @ trim (textContent child), results = rs\<rparr>"
  using leaf_condition_iff [of buf "getFollowingText sibs"]
  by (simp add: processLeafElement_def Let_def)

lemma processLeafElement_standalone:
  "\<not> embeddedBySpec buf (getFollowingText sibs) \<Longrightarrow>
     processLeafElement child sibs buf rs =
       \<lparr>buffer = [],
        results = processBufferToResults buf rs @
          [PreservedElement (setTextContent child (normalizeText (textContent child)))]\<rparr>"
  using leaf_condition_iff [of buf "getFollowingText sibs"]
  by (simp add: processLeafElement_def Let_def)

lemma results_grow: "rs \<noteq> processBufferToResults buf rs @ [x]"
proof
  assume "rs = processBufferToResults buf rs @ [x]"
  then have "length rs = length (processBufferToResults buf rs) + 1"
    by (metis length_append_singleton Suc_eq_plus1)
  moreover have "length (processBufferToResults buf rs) = length rs + length (processBufferToResults buf [])"
    by (subst processBufferToResults_eq) simp
  ultimately show False
    by simp
qed

lemma processChildren_leaf:
  "isElement child \<Longrightarrow> isVisible css child \<Longrightarrow> getElementProcessor child = ProcessLeafElement \<Longrightarrow>
     processChildren css (child # sibs) buf rs =
       (let st = processLeafElement child sibs buf rs
        in processChildren css sibs (buffer st) (results st))"
  by (cases child) simp_all

lemma processChildren_element:
  "isElement child \<Longrightarrow> isVisible css child \<Longrightarrow>
     processChildren css (child # rest) buf rs =
       (let st = (case getElementProcessor child of
                    ProcessLineBreak \<Rightarrow> processLineBreak child buf rs
                  | ProcessThematicBreak \<Rightarrow> processThematicBreak child buf rs
                  | ProcessLeafElement \<Rightarrow> processLeafElement child rest buf rs
                  | ProcessNonLeafElement \<Rightarrow> processNonLeafElement css child buf rs)
        in processChildren css rest (buffer st) (results st))"
  by (cases child; hypsubst; simp)

lemma processContainer_childNodes:
  "processContainer css c =
     (let st = processChildren css (childNodes c) [] []
      in processBufferToResults (buffer st) (results st))"
  by (cases c) simp_all

lemma processLeafElement_cases:
  "processLeafElement child sibs buf rs = \<lparr>buffer = buf @ trim (textContent child), results = rs\<rparr> \<or>
   processLeafElement child sibs buf rs =
     \<lparr>buffer = [],
      results = processBufferToResults buf rs @
        [PreservedElement (setTextContent child (normalizeText (textContent child)))]\<rparr>"
  by (simp add: processLeafElement_def Let_def)

lemma processLines_flush:
  "processLines (line # next # rest) buf rs =
     (let st = (if containsPunct line then processLineForSentences line buf rs
                else \<lparr>buffer = buf @ line, results = rs\<rparr>)
      in processLines (next # rest) [] (results (flushLineBuffer (buffer st) (results st))))"
  by (simp add: Let_def flushLineBuffer_def)

lemma isSpace_newline_map: "isSpace (if c = 0x0A then 0x20 else c) = isSpace c"
  by (auto simp: isSpace_def)

lemma collapseSpaces_space:
  "isSpace c \<Longrightarrow> collapseSpaces (c # cs) = 0x20 # collapseSpaces (dropWhile isSpace cs)"
  by simp

lemma collapseSpaces_nonspace:
  "\<not> isSpace c \<Longrightarrow> collapseSpaces (c # cs) = c # collapseSpaces cs"
  by simp

declare collapseSpaces.simps(2) [simp del]

lemma collapseSpaces_map_newline:
  "collapseSpaces (map (\<lambda>c. if c = 0x0A then 0x20 else c) t) = collapseSpaces t"
proof (induction t rule: collapseSpaces.induct)
  case 1
  then show ?case by simp
next
  case (2 c cs)
  define f :: "jschar \<Rightarrow> jschar" where "f = (\<lambda>c. if c = 0x0A then 0x20 else c)"
  have fs: "isSpace (f x) = isSpace x" for x
    unfolding f_def by (rule isSpace_newline_map)
  have dm: "dropWhile isSpace (map f xs) = map f (dropWhile isSpace xs)" for xs
    by (induction xs) (simp_all add: fs)
  show ?case
  proof (cases "isSpace c")
    case True
    then have "collapseSpaces (map f (c # cs)) = 0x20 # collapseSpaces (map f (dropWhile isSpace cs))"
      by (simp add: collapseSpaces_space fs dm)
    also have "\<dots> = 0x20 # collapseSpaces (dropWhile isSpace cs)"
      using 2(1) [OF True] by (simp add: f_def)
    also have "\<dots> = collapseSpaces (c # cs)"
      using True by (simp add: collapseSpaces_space)
    finally show ?thesis
      by (simp add: f_def)
  next
    case False
    then have "f c = c"
      by (auto simp: f_def isSpace_def)
    with False have "collapseSpaces (map f (c # cs)) = c # collapseSpaces (map f cs)"
      by (simp add: collapseSpaces_nonspace)
    also have "\<dots> = collapseSpaces (c # cs)"
      using 2(2) [OF False] False by (simp add: f_def collapseSpaces_nonspace)
    finally show ?thesis
      by (simp add: f_def)
  qed
qed

lemma collapseSpaces_word:
  "list_all (\<lambda>x. \<not> isSpace x) w \<Longrightarrow> collapseSpaces (w @ u) = w @ collapseSpaces u"
  by (induction w) (simp_all add: collapseSpaces_nonspace)

lemma collapseSpaces_gap:
  assumes "sp \<noteq> []" "list_all isSpace sp" "u = [] \<or> \<not> isSpace (hd u)"
  shows "collapseSpaces (sp @ u) = 0x20 # collapseSpaces u"
proof -
  from assms(1) obtain c sp' where sp: "sp = c # sp'"
    by (cases sp) auto
  with assms(2) have c: "isSpace c" and sp': "\<forall>x \<in> set sp'. isSpace x"
    by (simp_all add: list_all_iff)
  have "dropWhile isSpace u = u"
    using assms(3) by (cases u) auto
  with sp' have "dropWhile isSpace (sp' @ u) = u"
    by (simp add: dropWhile_append2)
  with c show ?thesis
    by (simp add: sp collapseSpaces_space)
qed

lemma trimEnd_append:
  "trimEnd (a @ b) = (if list_all isSpace b then trimEnd a else a @ trimEnd b)"
proof (cases "list_all isSpace b")
  case True
  then have "\<And>x. x \<in> set (rev b) \<Longrightarrow> isSpace x"
    by (simp add: list_all_iff)
  then have "dropWhile isSpace (rev b @ rev a) = dropWhile isSpace (rev a)"
    by (rule dropWhile_append2)
  with True show ?thesis
    by (simp add: trimEnd_def)
next
  case False
  then obtain x where "x \<in> set (rev b)" "\<not> isSpace x"
    by (auto simp: list_all_iff)
  then have "dropWhile isSpace (rev b @ rev a) = dropWhile isSpace (rev b) @ rev a"
    by (rule dropWhile_append1)
  with False show ?thesis
    by (simp add: trimEnd_def)
qed

lemma trimEnd_word: "list_all (\<lambda>x. \<not> isSpace x) w \<Longrightarrow> trimEnd w = w"
proof (cases "w = []")
  case True
  then show ?thesis by (simp add: trimEnd_def)
next
  case False
  assume "list_all (\<lambda>x. \<not> isSpace x) w"
  with False have "\<not> isSpace (last w)"
    by (simp add: list_all_iff)
  with False have "dropWhile isSpace (rev w) = rev w"
    by (cases "rev w") (auto simp: last_rev hd_rev)
  then show ?thesis
    by (simp add: trimEnd_def)
qed

lemma trimEnd_hd:
  assumes "t \<noteq> []" "\<not> isSpace (hd t)"
  shows "trimEnd t \<noteq> [] \<and> hd (trimEnd t) = hd t"
proof -
  from assms obtain c cs where t: "t = c # cs"
    by (cases t) auto
  with assms(2) have c: "\<not> isSpace c"
    by simp
  have "trimEnd ([c] @ cs) = (if list_all isSpace cs then trimEnd [c] else [c] @ trimEnd cs)"
    by (rule trimEnd_append)
  moreover have "trimEnd [c] = [c]"
    using c by (simp add: trimEnd_def)
  ultimately show ?thesis
    by (simp add: t)
qed

lemma wordsOf_dropWhile: "wordsOf (dropWhile isSpace s) = wordsOf s"
  by (subst (1 2) wordsOf.simps) simp

lemma wordsOf_blank:
  assumes "list_all isSpace s"
  shows "wordsOf s = []"
proof -
  have "dropWhile isSpace s = []"
    using assms by (simp add: list_all_iff)
  then show ?thesis
    by (subst wordsOf.simps) (simp only: list.case)
qed

lemma wordsOf_start:
  assumes "t \<noteq> []" "\<not> isSpace (hd t)"
  shows "wordsOf t = takeWhile (\<lambda>x. \<not> isSpace x) t # wordsOf (dropWhile (\<lambda>x. \<not> isSpace x) t)"
proof -
  from assms obtain c cs where t: "t = c # cs"
    by (cases t) auto
  with assms(2) have "dropWhile isSpace t = c # cs"
    by simp
  then show ?thesis
    by (subst wordsOf.simps) (simp add: t)
qed

lemma collapse_trimEnd_words:
  "t = [] \<or> \<not> isSpace (hd t) \<Longrightarrow> collapseSpaces (trimEnd t) = joinWords (wordsOf t)"
proof (induction t rule: length_induct)
  case (1 t)
  show ?case
  proof (cases "t = []")
    case True
    then show ?thesis
      by (simp add: trimEnd_def wordsOf_blank)
  next
    case False
    with 1(2) have hd: "\<not> isSpace (hd t)"
      by simp
    define w where "w = takeWhile (\<lambda>x. \<not> isSpace x) t"
    define rest where "rest = dropWhile (\<lambda>x. \<not> isSpace x) t"
    define t' where "t' = dropWhile isSpace rest"
    define sp where "sp = takeWhile isSpace rest"
    have t: "t = w @ rest" and rest: "rest = sp @ t'"
      by (simp_all add: w_def rest_def t'_def sp_def)
    have w: "list_all (\<lambda>x. \<not> isSpace x) w"
      unfolding w_def list_all_iff by (auto dest: set_takeWhileD)
    have sps: "list_all isSpace sp"
      unfolding sp_def list_all_iff by (auto dest: set_takeWhileD)
    have wne: "w \<noteq> []"
      using False hd unfolding w_def by (cases t) auto
    have wo: "wordsOf t = w # wordsOf t'"
      using wordsOf_start [OF False hd] wordsOf_dropWhile [of rest]
      by (simp add: w_def rest_def t'_def)
    show ?thesis
    proof (cases "t' = []")
      case True
      then have "list_all isSpace rest"
        by (simp add: t'_def list_all_iff dropWhile_eq_Nil_conv)
      then have "trimEnd t = w"
        using trimEnd_append [of w rest] trimEnd_word [OF w] by (simp add: t)
      moreover have "collapseSpaces w = w"
        using collapseSpaces_word [OF w, of "[]"] by simp
      ultimately show ?thesis
        using True by (simp add: wo wordsOf_blank)
    next
      case t'ne: False
      have hd': "\<not> isSpace (hd t')"
        using t'ne unfolding t'_def by (metis hd_dropWhile)
      have nb: "\<not> list_all isSpace t'"
        using t'ne hd' by (cases t') auto
      then have nbr: "\<not> list_all isSpace rest"
        by (auto simp: rest list_all_iff)
      have restne: "rest \<noteq> []"
        using t'ne by (auto simp: t'_def)
      then have "isSpace (hd rest)"
        unfolding rest_def using hd_dropWhile [of "\<lambda>x. \<not> isSpace x" t] by auto
      with restne have spne: "sp \<noteq> []"
        unfolding sp_def by (cases rest) auto
      have "trimEnd (w @ rest) = w @ trimEnd rest"
        using nbr by (simp add: trimEnd_append [of w rest])
      moreover have "trimEnd (sp @ t') = sp @ trimEnd t'"
        using nb by (simp add: trimEnd_append [of sp t'])
      ultimately have "trimEnd t = w @ sp @ trimEnd t'"
        using t rest by simp
      then have "collapseSpaces (trimEnd t) = w @ collapseSpaces (sp @ trimEnd t')"
        by (simp add: collapseSpaces_word [OF w])
      also have "\<dots> = w @ 0x20 # collapseSpaces (trimEnd t')"
        using collapseSpaces_gap [OF spne sps, of "trimEnd t'"] trimEnd_hd [OF t'ne hd']
        by (simp add: hd')
      also have "collapseSpaces (trimEnd t') = joinWords (wordsOf t')"
      proof -
        have "0 < length w"
          using wne by simp
        moreover have "length t' \<le> length rest"
          unfolding t'_def by (rule length_dropWhile_le)
        moreover have "length t = length w + length rest"
          using t by simp
        ultimately have "length t' < length t"
          by linarith
        with 1(1) hd' show ?thesis
          by blast
      qed
      also have "w @ 0x20 # joinWords (wordsOf t') = joinWords (w # wordsOf t')"
        using wordsOf_start [OF t'ne hd'] by simp
      finally show ?thesis
        by (simp add: wo)
    qed
  qed
qed

lemma normalizeText_words: "normalizeText s = joinWords (wordsOf s)"
proof -
  define t where "t = dropWhile isSpace s"
  have "t = [] \<or> \<not> isSpace (hd t)"
    unfolding t_def by (metis hd_dropWhile)
  then have "collapseSpaces (trimEnd t) = joinWords (wordsOf t)"
    by (rule collapse_trimEnd_words)
  then show ?thesis
    by (simp add: normalizeText_def trim_def trimStart_def collapseSpaces_map_newline t_def
        wordsOf_dropWhile)
qed

lemma thematic_clone_words:
  assumes "isElement hr" "tagName hr = ''HR''"
  shows "\<exists>at ch. hr = ElementNode ''HR'' at ch \<and>
       (if textContent hr \<noteq> [] then setTextContent hr (normalizeText (textContent hr)) else hr) =
         ElementNode ''HR'' at
           (if textContent hr = [] then ch
            else if joinWords (wordsOf (textContent hr)) = [] then []
            else [TextNode (joinWords (wordsOf (textContent hr)))])"
proof -
  from assms obtain at ch where hr: "hr = ElementNode ''HR'' at ch"
    by (cases hr) simp_all
  show ?thesis
    unfolding hr by (simp add: normalizeText_words [symmetric])
qed

lemma textContent_setTextContent:
  "isElement e \<Longrightarrow> textContent (setTextContent e s) = s"
  by (cases e) simp_all

lemma thematic_clone_text:
  assumes "isElement hr"
  shows "textContent (if textContent hr \<noteq> [] then setTextContent hr (normalizeText (textContent hr))
                      else hr) = joinWords (wordsOf (textContent hr))"
proof (cases "textContent hr = []")
  case True
  then show ?thesis
    by (simp add: wordsOf_blank)
next
  case False
  with assms show ?thesis
    by (simp add: textContent_setTextContent normalizeText_words)
qed

lemma processLeafElement_flush_blank:
  "processLeafElement child sibs buf rs = \<lparr>buffer = buf @ trim (textContent child), results = rs\<rparr> \<or>
   (trim buf = [] \<and>
    processLeafElement child sibs buf rs =
      \<lparr>buffer = [],
       results = rs @ [PreservedElement (setTextContent child (normalizeText (textContent child)))]\<rparr>)"
proof (cases "embeddedBySpec buf (getFollowingText sibs)")
  case True
  then show ?thesis
    by (simp add: processLeafElement_embedded)
next
  case False
  then have b: "trim buf = []"
    by (simp add: embeddedBySpec_def)
  then have "processBufferToResults buf rs = rs"
    by (simp add: processBufferToResults_def)
  with False b show ?thesis
    by (simp add: processLeafElement_standalone)
qed

section \<open>Claims about the sentence splitter\<close>




text \<open>
  Claim C5. \<open>splitBySentences "Hello world. This is great! Done"\<close> is the list of the three
  fragments \<open>"Hello world."\<close>, \<open>" This is great!"\<close>, \<open>" Done"\<close>, the last one without
  terminal punctuation. A run of consecutive punctuation code units is one boundary:
  when the loop is at the first code unit of a run that cannot be extended, it moves past
  the whole run in one iteration, and it pushes the accumulator as one sentence when the
  run is followed by whitespace or ends the input, and keeps accumulating otherwise. For
  a text \<open>a\<close> without punctuation followed by such a run this gives the single sentence
  \<open>a @ run\<close> at the end of the input, the sentence \<open>a @ run\<close> followed by the sentences of
  the rest before whitespace, and a first fragment that goes on past the run before any
  other code unit.
\<close>

theorem splitBySentences_example_and_runs:
  "splitBySentences (js ''Hello world. This is great! Done'') =
     [js ''Hello world.'', js '' This is great!'', js '' Done''] \<and>
   \<not> isPunct (last (js '' Done'')) \<and>
   (run \<noteq> [] \<and> list_all isPunct run \<and> (xs = [] \<or> \<not> isPunct (hd xs)) \<longrightarrow>
      splitLoop (p @ run @ xs) (length p) current sentences =
        (if xs = [] \<or> isSpace (hd xs)
         then splitLoop (p @ run @ xs) (length p + length run) [] (sentences @ [current @ run])
         else splitLoop (p @ run @ xs) (length p + length run) (current @ run) sentences)) \<and>
   (\<not> containsPunct a \<and> run \<noteq> [] \<and> list_all isPunct run \<longrightarrow>
      splitBySentences (a @ run) = [a @ run] \<and>
      (isSpace w \<longrightarrow> splitBySentences (a @ run @ w # rest) = (a @ run) # splitBySentences (w # rest)) \<and>
      (\<not> isPunct c \<and> \<not> isSpace c \<longrightarrow>
         (\<exists>t fs. splitBySentences (a @ run @ c # rest) = (a @ run @ c # t) # fs)))"
proof -
  have ex: "splitBySentences (js ''Hello world. This is great! Done'') =
     [js ''Hello world.'', js '' This is great!'', js '' Done'']"
    by code_simp
  have inc: "\<not> isPunct (last (js '' Done''))"
    by code_simp
  show ?thesis
    using ex inc splitLoop_run [of run xs p current sentences]
      splitBySentences_run_at_end [of a run]
      splitBySentences_boundary [of a run w rest]
      splitBySentences_no_boundary [of a run c rest]
    by blast
qed

text \<open>The theorem at the run \<open>"?!"\<close> after \<open>"Wait"\<close>, followed by \<open>" ok"\<close> or by \<open>"ok"\<close>.\<close>

theorem splitBySentences_example_and_runs_witness:
  "(js ''?!'' \<noteq> [] \<and> list_all isPunct (js ''?!'') \<and> \<not> isPunct (hd (js '' ok'')) \<and>
    \<not> containsPunct (js ''Wait'') \<and> isSpace 0x20 \<and> \<not> isPunct 0x6F \<and> \<not> isSpace 0x6F) \<and>
   splitLoop (js ''Wait'' @ js ''?!'' @ js '' ok'') (length (js ''Wait'')) (js ''Wait'') [] =
     splitLoop (js ''Wait'' @ js ''?!'' @ js '' ok'') (length (js ''Wait'') + length (js ''?!'')) []
       ([] @ [js ''Wait'' @ js ''?!'']) \<and>
   splitBySentences (js ''Wait'' @ js ''?!'') = [js ''Wait'' @ js ''?!''] \<and>
   splitBySentences (js ''Wait'' @ js ''?!'' @ 0x20 # js ''ok'') =
     (js ''Wait'' @ js ''?!'') # splitBySentences (0x20 # js ''ok'') \<and>
   (\<exists>t fs. splitBySentences (js ''Wait'' @ js ''?!'' @ 0x6F # js ''k'') =
      (js ''Wait'' @ js ''?!'' @ 0x6F # t) # fs)"
proof -
  have h: "js ''?!'' \<noteq> [] \<and> list_all isPunct (js ''?!'') \<and> \<not> isPunct (hd (js '' ok'')) \<and>
    \<not> containsPunct (js ''Wait'') \<and> isSpace 0x20 \<and> \<not> isPunct 0x6F \<and> \<not> isSpace 0x6F"
    by code_simp
  have sp: "isSpace (hd (js '' ok''))"
    by code_simp
  from h sp
    splitBySentences_example_and_runs
      [of "js ''?!''" "js '' ok''" "js ''Wait''" "js ''Wait''" "[]" "js ''Wait''" "0x20" "js ''ok''" "0x6F"]
    splitBySentences_example_and_runs
      [of "js ''?!''" "js '' ok''" "js ''Wait''" "js ''Wait''" "[]" "js ''Wait''" "0x20" "js ''k''" "0x6F"]
  show ?thesis
    by auto
qed

section \<open>Claims about lines and the buffer\<close>

text \<open>
  Claim C4, as the code has it. For a line with terminal punctuation the handler runs the
  splitter on buffer+line, which returns at least one fragment, and emits every fragment
  except the last as a TextBlock (trimmed, dropped when empty after trimming). When the
  splitter returns more than one fragment, the new buffer is the last fragment. When it
  returns exactly one, the source leaves \<open>updatedBuffer\<close> as it is (the assignment is
  under \<open>if (sentences.length > 1)\<close>): the new buffer is buffer+line, which is that
  fragment followed by the whitespace the splitter dropped. On the last line of a text
  node this is the whole step.
\<close>

theorem processLineForSentences_emits:
  "containsPunct line \<longrightarrow>
     splitBySentences (buf @ line) \<noteq> [] \<and>
     results (processLineForSentences line buf rs) =
       rs @ map TextBlock (filter (\<lambda>t. t \<noteq> []) (map trim (butlast (splitBySentences (buf @ line))))) \<and>
     (length (splitBySentences (buf @ line)) > 1 \<longrightarrow>
        buffer (processLineForSentences line buf rs) = last (splitBySentences (buf @ line))) \<and>
     (length (splitBySentences (buf @ line)) = 1 \<longrightarrow>
        buffer (processLineForSentences line buf rs) = buf @ line \<and>
        (\<exists>r. buf @ line = last (splitBySentences (buf @ line)) @ r \<and> trim r = [])) \<and>
     processLines [line] buf rs = processLineForSentences line buf rs"
proof
  assume cp: "containsPunct line"
  then have "containsPunct (buf @ line)"
    by (auto simp: containsPunct_def list_ex_iff)
  then have ne: "splitBySentences (buf @ line) \<noteq> []"
    by (rule splitBySentences_nonempty)
  have fm: "map trim (filter (\<lambda>s. trim s \<noteq> []) fs) = filter (\<lambda>t. t \<noteq> []) (map trim fs)" for fs
    by (induction fs) simp_all
  have res: "results (processLineForSentences line buf rs) =
       rs @ map TextBlock (filter (\<lambda>t. t \<noteq> []) (map trim (butlast (splitBySentences (buf @ line)))))"
  proof (cases "length (splitBySentences (buf @ line)) > 1")
    case True
    then show ?thesis
      by (simp add: processLineForSentences_def Let_def pushSentences_eq fm)
  next
    case False
    with ne obtain f where "splitBySentences (buf @ line) = [f]"
      by (cases "splitBySentences (buf @ line)") auto
    then show ?thesis
      by (simp add: processLineForSentences_def Let_def)
  qed
  have one: "\<exists>r. buf @ line = last (splitBySentences (buf @ line)) @ r \<and> trim r = []"
    if "length (splitBySentences (buf @ line)) = 1"
  proof -
    from that obtain f where f: "splitBySentences (buf @ line) = [f]"
      by (cases "splitBySentences (buf @ line)") auto
    from splitBySentences_single [OF f] f show ?thesis
      by simp
  qed
  have pl: "processLines [line] buf rs = processLineForSentences line buf rs"
    using cp by (simp add: Let_def)
  show "splitBySentences (buf @ line) \<noteq> [] \<and>
     results (processLineForSentences line buf rs) =
       rs @ map TextBlock (filter (\<lambda>t. t \<noteq> []) (map trim (butlast (splitBySentences (buf @ line))))) \<and>
     (length (splitBySentences (buf @ line)) > 1 \<longrightarrow>
        buffer (processLineForSentences line buf rs) = last (splitBySentences (buf @ line))) \<and>
     (length (splitBySentences (buf @ line)) = 1 \<longrightarrow>
        buffer (processLineForSentences line buf rs) = buf @ line \<and>
        (\<exists>r. buf @ line = last (splitBySentences (buf @ line)) @ r \<and> trim r = [])) \<and>
     processLines [line] buf rs = processLineForSentences line buf rs"
    using ne res one pl by (simp add: processLineForSentences_def Let_def)
qed

text \<open>
  The theorem at the line \<open>"B. C"\<close> with buffer \<open>"A. "\<close> (three fragments) and at the line
  \<open>"Hi. "\<close> with an empty buffer (one fragment).
\<close>

theorem processLineForSentences_emits_witness:
  "containsPunct (js ''B. C'') \<and> containsPunct (js ''Hi. '') \<and>
   length (splitBySentences (js ''A. '' @ js ''B. C'')) > 1 \<and>
   length (splitBySentences ([] @ js ''Hi. '')) = 1 \<and>
   results (processLineForSentences (js ''B. C'') (js ''A. '') []) =
     [TextBlock (js ''A.''), TextBlock (js ''B.'')] \<and>
   buffer (processLineForSentences (js ''B. C'') (js ''A. '') []) = js '' C'' \<and>
   buffer (processLineForSentences (js ''Hi. '') [] []) = js ''Hi. ''"
proof -
  have h: "containsPunct (js ''B. C'')" "containsPunct (js ''Hi. '')"
    by code_simp+
  have s: "splitBySentences (js ''A. '' @ js ''B. C'') = [js ''A.'', js '' B.'', js '' C'']"
    "splitBySentences (js ''Hi. '') = [js ''Hi.'']"
    by code_simp+
  have t: "trim (js ''A.'') = js ''A.''" "trim (js '' B.'') = js ''B.''"
      "js ''A.'' \<noteq> []" "js ''B.'' \<noteq> []"
    by code_simp+
  from h processLineForSentences_emits [of "js ''B. C''" "js ''A. ''" "[]"]
    processLineForSentences_emits [of "js ''Hi. ''" "[]" "[]"]
  show ?thesis
    by (simp add: s t)
qed

text \<open>
  Claim C4 as stated fails when the splitter returns one fragment and the text goes on
  with whitespace: for the line \<open>"Hi. "\<close> and an empty buffer the only fragment is
  \<open>"Hi."\<close>, and the new buffer is \<open>"Hi. "\<close>.
\<close>

theorem processLineForSentences_buffer_not_last:
  "containsPunct (js ''Hi. '') \<and>
   buffer (processLineForSentences (js ''Hi. '') [] []) \<noteq> last (splitBySentences ([] @ js ''Hi. ''))"
  by code_simp

text \<open>
  Claim C3. A container whose only child is the text node \<open>"A.\nB"\<close> yields the two
  TextBlocks \<open>"A."\<close> and \<open>"B"\<close>, whatever its tag, its attributes and the computed styles.
  In general, for a first line \<open>l\<close> (no line feed in it) followed by a line feed, the text
  node handler processes \<open>l\<close>, then emits whatever the buffer holds as one TextBlock
  (trimmed, nothing when empty after trimming), with or without punctuation, and goes on
  with the rest of the text from an empty buffer; on a text without line feed, the last
  line, it returns the state after the line, buffer included.
\<close>

theorem processTextNode_newline_boundary:
  "processContainer css (ElementNode t a [TextNode (js ''A.'' @ 0x0A # js ''B'')]) =
     [TextBlock (js ''A.''), TextBlock (js ''B'')] \<and>
   (0x0A \<notin> set l \<longrightarrow>
      processTextNode (l @ 0x0A # rest) buf rs =
        (let st = (if containsPunct l then processLineForSentences l buf rs
                   else \<lparr>buffer = buf @ l, results = rs\<rparr>)
         in processTextNode rest []
              (if trim (buffer st) \<noteq> [] then results st @ [TextBlock (trim (buffer st))]
               else results st)) \<and>
      processTextNode l buf rs =
        (if containsPunct l then processLineForSentences l buf rs
         else \<lparr>buffer = buf @ l, results = rs\<rparr>))"
proof -
  have ex: "processContainer css (ElementNode t a [TextNode (js ''A.'' @ 0x0A # js ''B'')]) =
     [TextBlock (js ''A.''), TextBlock (js ''B'')]"
    by code_simp
  show ?thesis
    using ex processTextNode_newline [of l rest buf rs] processTextNode_last_line [of l buf rs]
    by (simp add: flushLineBuffer_def Let_def)
qed

text \<open>The theorem at the first line \<open>"A."\<close> of the text \<open>"A.\nB"\<close>.\<close>

theorem processTextNode_newline_boundary_witness:
  "0x0A \<notin> set (js ''A.'') \<and>
   processTextNode (js ''A.'' @ 0x0A # js ''B'') [] [] = \<lparr>buffer = js ''B'', results = [TextBlock (js ''A.'')]\<rparr>"
proof -
  have h: "0x0A \<notin> set (js ''A.'')"
    by code_simp
  have c: "containsPunct (js ''A.'')" 
    by code_simp
  have p: "processLineForSentences (js ''A.'') [] [] = \<lparr>buffer = js ''A.'', results = []\<rparr>"
    by code_simp
  have t: "trim (js ''A.'') = js ''A.''" "js ''A.'' \<noteq> []"
    by code_simp+
  have r: "processTextNode (js ''B'') [] [TextBlock (js ''A.'')] =
      \<lparr>buffer = js ''B'', results = [TextBlock (js ''A.'')]\<rparr>"
    by code_simp
  from h processTextNode_newline_boundary [of _ _ _ "js ''A.''" "js ''B''" "[]" "[]"] show ?thesis
    by (simp add: c p t r)
qed

section \<open>Claims about the tree walker\<close>

text \<open>
  Claim C6. A visible \<open>HR\<close> element always yields a PreservedElement holding its
  normalized clone: an \<open>HR\<close> element with the attributes of the original whose text is
  the words of the original text joined by single spaces (one text node, or no child
  when there is no word); an element without text is cloned as it is. Its handler
  flushes the buffer with \<open>processBufferToResults\<close>, appends the clone and returns an
  empty buffer; the walker goes on with the later siblings from that state. Hence the
  blocks of a container with children \<open>pre @ hr # post\<close> are the blocks of \<open>pre\<close> alone
  (its last buffer flushed), then the clone, then the blocks of \<open>post\<close> alone, whatever
  the buffer holds before or after the element.
\<close>

theorem thematic_break_position:
  "normalizeText s = joinWords (wordsOf s) \<and>
   (isElement hr \<and> isVisible css hr \<and> tagName hr = ''HR'' \<longrightarrow>
     processThematicBreak hr buf rs =
       \<lparr>buffer = [],
        results = processBufferToResults buf rs @
          [PreservedElement (if textContent hr \<noteq> []
                             then setTextContent hr (normalizeText (textContent hr)) else hr)]\<rparr> \<and>
     processChildren css (hr # post) buf rs =
       processChildren css post []
         (processBufferToResults buf rs @
          [PreservedElement (if textContent hr \<noteq> []
                             then setTextContent hr (normalizeText (textContent hr)) else hr)]) \<and>
     processContainer css (ElementNode t a (pre @ hr # post)) =
       processContainer css (ElementNode t a pre) @
       [PreservedElement (if textContent hr \<noteq> []
                          then setTextContent hr (normalizeText (textContent hr)) else hr)] @
       processContainer css (ElementNode t a post) \<and>
     (\<exists>at ch. hr = ElementNode ''HR'' at ch \<and>
        (if textContent hr \<noteq> [] then setTextContent hr (normalizeText (textContent hr)) else hr) =
          ElementNode ''HR'' at
            (if textContent hr = [] then ch
             else if joinWords (wordsOf (textContent hr)) = [] then []
             else [TextNode (joinWords (wordsOf (textContent hr)))])) \<and>
     textContent (if textContent hr \<noteq> [] then setTextContent hr (normalizeText (textContent hr))
                  else hr) = joinWords (wordsOf (textContent hr)))"
proof (intro conjI impI)
  show "normalizeText s = joinWords (wordsOf s)"
    by (rule normalizeText_words)
next
  assume h: "isElement hr \<and> isVisible css hr \<and> tagName hr = ''HR''"
  then have h1: "isElement hr" and h2: "isVisible css hr" and h3: "tagName hr = ''HR''"
    by simp_all
  have step: "processChildren css (hr # post) b r =
       processChildren css post []
         (processBufferToResults b r @
          [PreservedElement (if textContent hr \<noteq> []
                             then setTextContent hr (normalizeText (textContent hr)) else hr)])" for b r
    by (rule processChildren_thematic_break [OF h1 h2 h3])
  from h have g: "getFollowingText (hr # post) = []"
    by (simp add: getFollowingText_element)
  show "processThematicBreak hr buf rs =
       \<lparr>buffer = [],
        results = processBufferToResults buf rs @
          [PreservedElement (if textContent hr \<noteq> []
                             then setTextContent hr (normalizeText (textContent hr)) else hr)]\<rparr>"
    by (simp add: processThematicBreak_def Let_def)
  show "processChildren css (hr # post) buf rs =
       processChildren css post []
         (processBufferToResults buf rs @
          [PreservedElement (if textContent hr \<noteq> []
                             then setTextContent hr (normalizeText (textContent hr)) else hr)])"
    by (rule step)
  show "processContainer css (ElementNode t a (pre @ hr # post)) =
       processContainer css (ElementNode t a pre) @
       [PreservedElement (if textContent hr \<noteq> []
                          then setTextContent hr (normalizeText (textContent hr)) else hr)] @
       processContainer css (ElementNode t a post)"
    by (rule processContainer_split [OF g step])
  show "\<exists>at ch. hr = ElementNode ''HR'' at ch \<and>
        (if textContent hr \<noteq> [] then setTextContent hr (normalizeText (textContent hr)) else hr) =
          ElementNode ''HR'' at
            (if textContent hr = [] then ch
             else if joinWords (wordsOf (textContent hr)) = [] then []
             else [TextNode (joinWords (wordsOf (textContent hr)))])"
    by (rule thematic_clone_words [OF h1 h3])
  show "textContent (if textContent hr \<noteq> [] then setTextContent hr (normalizeText (textContent hr))
                  else hr) = joinWords (wordsOf (textContent hr))"
    by (rule thematic_clone_text [OF h1])
qed

text \<open>
  The theorem at \<open>One. Two<hr class="x"> a \n  b </hr>Three\<close>, where the clone holds the
  text \<open>"a b"\<close>, and at the text \<open>"  a \n  b c  "\<close>, whose normal form is \<open>"a b c"\<close>.
\<close>

theorem thematic_break_position_witness:
  "(isElement (ElementNode ''HR'' [(''class'', js ''x'')] [TextNode (js '' a '' @ 0x0A # js ''  b '')]) \<and>
    isVisible hiddenSpans
      (ElementNode ''HR'' [(''class'', js ''x'')] [TextNode (js '' a '' @ 0x0A # js ''  b '')]) \<and>
    tagName (ElementNode ''HR'' [(''class'', js ''x'')] [TextNode (js '' a '' @ 0x0A # js ''  b '')]) =
      ''HR'') \<and>
   processContainer hiddenSpans
     (ElementNode ''DIV'' [] ([TextNode (js ''One. Two'')] @
        ElementNode ''HR'' [(''class'', js ''x'')] [TextNode (js '' a '' @ 0x0A # js ''  b '')] #
        [TextNode (js ''Three'')])) =
     [TextBlock (js ''One.''), TextBlock (js ''Two''),
      PreservedElement (ElementNode ''HR'' [(''class'', js ''x'')] [TextNode (js ''a b'')]),
      TextBlock (js ''Three'')] \<and>
   normalizeText (js ''  a '' @ 0x0A # js ''  b c  '') = js ''a b c''"
proof -
  have h: "isElement (ElementNode ''HR'' [(''class'', js ''x'')] [TextNode (js '' a '' @ 0x0A # js ''  b '')]) \<and>
    isVisible hiddenSpans
      (ElementNode ''HR'' [(''class'', js ''x'')] [TextNode (js '' a '' @ 0x0A # js ''  b '')]) \<and>
    tagName (ElementNode ''HR'' [(''class'', js ''x'')] [TextNode (js '' a '' @ 0x0A # js ''  b '')]) =
      ''HR''"
    by code_simp
  have pre: "processContainer hiddenSpans (ElementNode ''DIV'' [] [TextNode (js ''One. Two'')]) =
      [TextBlock (js ''One.''), TextBlock (js ''Two'')]"
    by code_simp
  have post: "processContainer hiddenSpans (ElementNode ''DIV'' [] [TextNode (js ''Three'')]) =
      [TextBlock (js ''Three'')]"
    by code_simp
  have w: "joinWords (wordsOf (js '' a '' @ 0x0A # js ''  b '')) = js ''a b''"
    "joinWords (wordsOf (js ''  a '' @ 0x0A # js ''  b c  '')) = js ''a b c''"
    "js ''a b'' \<noteq> []" "js '' a '' @ 0x0A # js ''  b '' \<noteq> []"
    by code_simp+
  note th = thematic_break_position [of _ "ElementNode ''HR'' [(''class'', js ''x'')]
      [TextNode (js '' a '' @ 0x0A # js ''  b '')]" hiddenSpans "[]" "[]"
      "[TextNode (js ''Three'')]" "''DIV''" "[]" "[TextNode (js ''One. Two'')]"]
  from h th [of "[]"] obtain at ch where
    pos: "processContainer hiddenSpans
     (ElementNode ''DIV'' [] ([TextNode (js ''One. Two'')] @
        ElementNode ''HR'' [(''class'', js ''x'')] [TextNode (js '' a '' @ 0x0A # js ''  b '')] #
        [TextNode (js ''Three'')])) =
       processContainer hiddenSpans (ElementNode ''DIV'' [] [TextNode (js ''One. Two'')]) @
       [PreservedElement
          (if textContent (ElementNode ''HR'' [(''class'', js ''x'')]
                 [TextNode (js '' a '' @ 0x0A # js ''  b '')]) \<noteq> []
           then setTextContent (ElementNode ''HR'' [(''class'', js ''x'')]
                 [TextNode (js '' a '' @ 0x0A # js ''  b '')])
                 (normalizeText (textContent (ElementNode ''HR'' [(''class'', js ''x'')]
                    [TextNode (js '' a '' @ 0x0A # js ''  b '')])))
           else ElementNode ''HR'' [(''class'', js ''x'')]
                 [TextNode (js '' a '' @ 0x0A # js ''  b '')])] @
       processContainer hiddenSpans (ElementNode ''DIV'' [] [TextNode (js ''Three'')])"
    and hr: "ElementNode ''HR'' [(''class'', js ''x'')] [TextNode (js '' a '' @ 0x0A # js ''  b '')] =
       ElementNode ''HR'' at ch"
    and cl: "(if textContent (ElementNode ''HR'' [(''class'', js ''x'')]
                 [TextNode (js '' a '' @ 0x0A # js ''  b '')]) \<noteq> []
           then setTextContent (ElementNode ''HR'' [(''class'', js ''x'')]
                 [TextNode (js '' a '' @ 0x0A # js ''  b '')])
                 (normalizeText (textContent (ElementNode ''HR'' [(''class'', js ''x'')]
                    [TextNode (js '' a '' @ 0x0A # js ''  b '')])))
           else ElementNode ''HR'' [(''class'', js ''x'')]
                 [TextNode (js '' a '' @ 0x0A # js ''  b '')]) =
       ElementNode ''HR'' at
         (if textContent (ElementNode ''HR'' [(''class'', js ''x'')]
                 [TextNode (js '' a '' @ 0x0A # js ''  b '')]) = [] then ch
          else if joinWords (wordsOf (textContent (ElementNode ''HR'' [(''class'', js ''x'')]
                 [TextNode (js '' a '' @ 0x0A # js ''  b '')]))) = [] then []
          else [TextNode (joinWords (wordsOf (textContent (ElementNode ''HR'' [(''class'', js ''x'')]
                 [TextNode (js '' a '' @ 0x0A # js ''  b '')]))))])"
    by blast
  from hr have at: "at = [(''class'', js ''x'')]"
    by simp
  have tc: "textContent (ElementNode ''HR'' [(''class'', js ''x'')]
                 [TextNode (js '' a '' @ 0x0A # js ''  b '')]) = js '' a '' @ 0x0A # js ''  b ''"
    by simp
  have clone: "(if textContent (ElementNode ''HR'' [(''class'', js ''x'')]
                 [TextNode (js '' a '' @ 0x0A # js ''  b '')]) \<noteq> []
           then setTextContent (ElementNode ''HR'' [(''class'', js ''x'')]
                 [TextNode (js '' a '' @ 0x0A # js ''  b '')])
                 (normalizeText (textContent (ElementNode ''HR'' [(''class'', js ''x'')]
                    [TextNode (js '' a '' @ 0x0A # js ''  b '')])))
           else ElementNode ''HR'' [(''class'', js ''x'')]
                 [TextNode (js '' a '' @ 0x0A # js ''  b '')]) =
       ElementNode ''HR'' [(''class'', js ''x'')] [TextNode (js ''a b'')]"
    by (subst cl) (simp add: w at)
  have r: "processContainer hiddenSpans
     (ElementNode ''DIV'' [] ([TextNode (js ''One. Two'')] @
        ElementNode ''HR'' [(''class'', js ''x'')] [TextNode (js '' a '' @ 0x0A # js ''  b '')] #
        [TextNode (js ''Three'')])) =
     [TextBlock (js ''One.''), TextBlock (js ''Two''),
      PreservedElement (ElementNode ''HR'' [(''class'', js ''x'')] [TextNode (js ''a b'')]),
      TextBlock (js ''Three'')]"
    unfolding pos clone pre post by simp
  have n: "normalizeText (js ''  a '' @ 0x0A # js ''  b c  '') = js ''a b c''"
    using th [of "js ''  a '' @ 0x0A # js ''  b c  ''"] w by simp
  from h r n show ?thesis
    by blast
qed

text \<open>
  Claim C7, as the code has it. The walker skips an invisible element child: its step
  leaves buffer and results as they are, it calls no handler and does not recurse. The
  element's own tag, attributes and subtree do not matter: any other invisible element in
  its place gives the same state and the same blocks. As a sibling the element still
  counts: \<open>getFollowingText\<close> stops at any element, visible or not. So the blocks are
  those of the container without the element when the lookahead of an earlier leaf would
  find no text behind it anyway (\<open>getFollowingText post = []\<close>) or cannot reach it (a
  text node comes right before it, or it is the first child still to visit).
\<close>

theorem invisible_element_skipped:
  "isElement e \<and> \<not> isVisible css e \<longrightarrow>
     processChildren css (e # post) buf rs = processChildren css post buf rs \<and>
     (isElement e' \<and> \<not> isVisible css e' \<longrightarrow>
        processChildren css (pre @ e # post) buf rs = processChildren css (pre @ e' # post) buf rs \<and>
        processContainer css (ElementNode t a (pre @ e # post)) =
          processContainer css (ElementNode t a (pre @ e' # post))) \<and>
     (getFollowingText post = [] \<longrightarrow>
        processChildren css (pre @ e # post) buf rs = processChildren css (pre @ post) buf rs \<and>
        processContainer css (ElementNode t a (pre @ e # post)) =
          processContainer css (ElementNode t a (pre @ post))) \<and>
     processChildren css (pre @ TextNode d # e # post) buf rs =
       processChildren css (pre @ TextNode d # post) buf rs \<and>
     processContainer css (ElementNode t a (pre @ TextNode d # e # post)) =
       processContainer css (ElementNode t a (pre @ TextNode d # post))"
proof
  assume h: "isElement e \<and> \<not> isVisible css e"
  then have e1: "isElement e" and e2: "\<not> isVisible css e"
    by simp_all
  have skip: "processChildren css (e # post) b r = processChildren css post b r" for b r
    by (rule processChildren_invisible [OF e1 e2])
  have ge: "getFollowingText (e # post) = []"
    by (rule getFollowingText_element [OF e1])
  have other: "processChildren css (pre @ e # post) b r = processChildren css (pre @ e' # post) b r"
    if "isElement e' \<and> \<not> isVisible css e'" for b r
  proof (rule processChildren_context)
    from that show "getFollowingText (e # post) = getFollowingText (e' # post)"
      by (simp add: ge getFollowingText_element)
    from that have "processChildren css (e' # post) b r = processChildren css post b r" for b r
      by (intro processChildren_invisible) simp_all
    then show "processChildren css (e # post) b r = processChildren css (e' # post) b r" for b r
      by (simp only: skip)
  qed
  have absent: "processChildren css (pre @ e # post) b r = processChildren css (pre @ post) b r"
    if "getFollowingText post = []" for b r
  proof (rule processChildren_context)
    from that show "getFollowingText (e # post) = getFollowingText post"
      by (simp add: ge)
    show "processChildren css (e # post) b r = processChildren css post b r" for b r
      by (rule skip)
  qed
  have tn: "processChildren css (pre @ TextNode d # e # post) b r =
       processChildren css (pre @ TextNode d # post) b r" for b r
  proof (rule processChildren_context)
    show "getFollowingText (TextNode d # e # post) = getFollowingText (TextNode d # post)"
      by simp
    show "processChildren css (TextNode d # e # post) b r = processChildren css (TextNode d # post) b r"
      for b r
      by (simp only: processChildren_text Let_def skip)
  qed
  show "processChildren css (e # post) buf rs = processChildren css post buf rs \<and>
     (isElement e' \<and> \<not> isVisible css e' \<longrightarrow>
        processChildren css (pre @ e # post) buf rs = processChildren css (pre @ e' # post) buf rs \<and>
        processContainer css (ElementNode t a (pre @ e # post)) =
          processContainer css (ElementNode t a (pre @ e' # post))) \<and>
     (getFollowingText post = [] \<longrightarrow>
        processChildren css (pre @ e # post) buf rs = processChildren css (pre @ post) buf rs \<and>
        processContainer css (ElementNode t a (pre @ e # post)) =
          processContainer css (ElementNode t a (pre @ post))) \<and>
     processChildren css (pre @ TextNode d # e # post) buf rs =
       processChildren css (pre @ TextNode d # post) buf rs \<and>
     processContainer css (ElementNode t a (pre @ TextNode d # e # post)) =
       processContainer css (ElementNode t a (pre @ TextNode d # post))"
  proof (intro conjI impI)
    show "processChildren css (e # post) buf rs = processChildren css post buf rs"
      by (rule skip)
    show "processChildren css (pre @ e # post) buf rs = processChildren css (pre @ e' # post) buf rs"
      if "isElement e' \<and> \<not> isVisible css e'"
      using that by (rule other)
    show "processContainer css (ElementNode t a (pre @ e # post)) =
          processContainer css (ElementNode t a (pre @ e' # post))"
      if "isElement e' \<and> \<not> isVisible css e'"
      using that by (intro processContainer_children_cong other)
    show "processChildren css (pre @ e # post) buf rs = processChildren css (pre @ post) buf rs"
      if "getFollowingText post = []"
      using that by (rule absent)
    show "processContainer css (ElementNode t a (pre @ e # post)) =
          processContainer css (ElementNode t a (pre @ post))"
      if "getFollowingText post = []"
      using that by (intro processContainer_children_cong absent)
    show "processChildren css (pre @ TextNode d # e # post) buf rs =
       processChildren css (pre @ TextNode d # post) buf rs"
      by (rule tn)
    show "processContainer css (ElementNode t a (pre @ TextNode d # e # post)) =
       processContainer css (ElementNode t a (pre @ TextNode d # post))"
      by (intro processContainer_children_cong tn)
  qed
qed

text \<open>
  The theorem at a hidden \<open>SPAN\<close> that is the last child after a link, compared with
  another hidden \<open>SPAN\<close> and with no element.
\<close>

theorem invisible_element_skipped_witness:
  "(isElement (ElementNode ''SPAN'' [] [TextNode (js ''x'')]) \<and>
    \<not> isVisible hiddenSpans (ElementNode ''SPAN'' [] [TextNode (js ''x'')]) \<and>
    isElement (ElementNode ''SPAN'' [] []) \<and> \<not> isVisible hiddenSpans (ElementNode ''SPAN'' [] []) \<and>
    getFollowingText [] = []) \<and>
   processContainer hiddenSpans (ElementNode ''DIV'' []
      ([ElementNode ''A'' [] [TextNode (js ''link'')]] @ ElementNode ''SPAN'' [] [TextNode (js ''x'')] # [])) =
     processContainer hiddenSpans (ElementNode ''DIV'' []
      ([ElementNode ''A'' [] [TextNode (js ''link'')]] @ ElementNode ''SPAN'' [] [] # [])) \<and>
   processContainer hiddenSpans (ElementNode ''DIV'' []
      ([ElementNode ''A'' [] [TextNode (js ''link'')]] @ ElementNode ''SPAN'' [] [TextNode (js ''x'')] # [])) =
     processContainer hiddenSpans (ElementNode ''DIV'' []
      ([ElementNode ''A'' [] [TextNode (js ''link'')]] @ []))"
proof -
  have h: "isElement (ElementNode ''SPAN'' [] [TextNode (js ''x'')]) \<and>
    \<not> isVisible hiddenSpans (ElementNode ''SPAN'' [] [TextNode (js ''x'')]) \<and>
    isElement (ElementNode ''SPAN'' [] []) \<and> \<not> isVisible hiddenSpans (ElementNode ''SPAN'' [] []) \<and>
    getFollowingText [] = []"
    by code_simp
  from h invisible_element_skipped [of "ElementNode ''SPAN'' [] [TextNode (js ''x'')]" hiddenSpans
      "[]" "[]" "[]" "ElementNode ''SPAN'' [] []" "[ElementNode ''A'' [] [TextNode (js ''link'')]]"
      "''DIV''" "[]"]
  show ?thesis
    by blast
qed

text \<open>
  Claim C7 as stated fails where an earlier leaf looks ahead: with the hidden \<open>SPAN\<close>
  between the link and the text \<open>", continued"\<close> the link is standalone; without it the
  link is merged into the text.
\<close>

theorem invisible_element_not_as_absent:
  "isElement (ElementNode ''SPAN'' [] [TextNode (js ''x'')]) \<and>
   \<not> isVisible hiddenSpans (ElementNode ''SPAN'' [] [TextNode (js ''x'')]) \<and>
   processContainer hiddenSpans (ElementNode ''DIV'' []
      [ElementNode ''A'' [] [TextNode (js ''link'')], ElementNode ''SPAN'' [] [TextNode (js ''x'')],
       TextNode (js '', continued'')]) =
     [PreservedElement (ElementNode ''A'' [] [TextNode (js ''link'')]), TextBlock (js '', continued'')] \<and>
   processContainer hiddenSpans (ElementNode ''DIV'' []
      [ElementNode ''A'' [] [TextNode (js ''link'')], TextNode (js '', continued'')]) =
     [TextBlock (js ''link, continued'')] \<and>
   processContainer hiddenSpans (ElementNode ''DIV'' []
      [ElementNode ''A'' [] [TextNode (js ''link'')], ElementNode ''SPAN'' [] [TextNode (js ''x'')],
       TextNode (js '', continued'')]) \<noteq>
   processContainer hiddenSpans (ElementNode ''DIV'' []
      [ElementNode ''A'' [] [TextNode (js ''link'')], TextNode (js '', continued'')])"
  by code_simp

text \<open>
  Claim C8. The blocks of a container are a function of the tree and of the visibility of
  the elements below the container: two runs on the same tree, under computed styles
  that give every element below it the same visibility, return equal sequences.
\<close>

theorem processContainer_deterministic:
  "(\<forall>e \<in> set (descendants c). isElement e \<longrightarrow> isVisible css e = isVisible css' e) \<longrightarrow>
     processContainer css c = processContainer css' c"
  using processContainer_css_cong [of c css css'] by blast

text \<open>
  The theorem at a tree with a link, a hidden \<open>SPAN\<close> and a text, for two style
  environments that differ in the opacity they report.
\<close>

theorem processContainer_deterministic_witness:
  "processContainer hiddenSpans (ElementNode ''DIV'' []
      [ElementNode ''A'' [] [TextNode (js ''link'')], ElementNode ''SPAN'' [] [TextNode (js ''x'')],
       TextNode (js '', continued'')]) =
   processContainer (\<lambda>element. (hiddenSpans element)\<lparr>opacity := ''0.5''\<rparr>) (ElementNode ''DIV'' []
      [ElementNode ''A'' [] [TextNode (js ''link'')], ElementNode ''SPAN'' [] [TextNode (js ''x'')],
       TextNode (js '', continued'')])"
proof -
  have h: "\<forall>e \<in> set (descendants (ElementNode ''DIV'' []
      [ElementNode ''A'' [] [TextNode (js ''link'')], ElementNode ''SPAN'' [] [TextNode (js ''x'')],
       TextNode (js '', continued'')])).
     isElement e \<longrightarrow>
       isVisible hiddenSpans e = isVisible (\<lambda>element. (hiddenSpans element)\<lparr>opacity := ''0.5''\<rparr>) e"
    by (simp add: isVisible_def hiddenSpans_def)
  with processContainer_deterministic [of "ElementNode ''DIV'' []
      [ElementNode ''A'' [] [TextNode (js ''link'')], ElementNode ''SPAN'' [] [TextNode (js ''x'')],
       TextNode (js '', continued'')]" hiddenSpans "\<lambda>element. (hiddenSpans element)\<lparr>opacity := ''0.5''\<rparr>"]
  show ?thesis
    by blast
qed

text \<open>
  Claim C2. \<open>processLeafElement\<close> merges the element into the buffer (the buffer gains the
  trimmed text of the element, the results stay as they are) exactly when the decision in
  the spec's words holds for the buffer and the following text, and it treats the element
  as standalone (buffer flushed, normalized clone appended, buffer empty) exactly when
  that decision fails. The walker hands a visible element to \<open>processLeafElement\<close> when
  \<open>getElementProcessor\<close> chooses the leaf handler, that is, for an element without element
  children whose tag is neither \<open>BR\<close> nor \<open>HR\<close>. With an empty buffer, the following text
  \<open>" More text"\<close> fails the decision and \<open>", continued"\<close> meets it.
\<close>

theorem leaf_element_decision:
  "(processLeafElement child sibs buf rs = \<lparr>buffer = buf @ trim (textContent child), results = rs\<rparr>
      \<longleftrightarrow> embeddedBySpec buf (getFollowingText sibs)) \<and>
   (processLeafElement child sibs buf rs =
      \<lparr>buffer = [],
       results = processBufferToResults buf rs @
         [PreservedElement (setTextContent child (normalizeText (textContent child)))]\<rparr>
      \<longleftrightarrow> \<not> embeddedBySpec buf (getFollowingText sibs)) \<and>
   (isElement child \<and> isVisible css child \<and> getElementProcessor child = ProcessLeafElement \<longrightarrow>
      processChildren css (child # sibs) buf rs =
        (let st = processLeafElement child sibs buf rs
         in processChildren css sibs (buffer st) (results st))) \<and>
   \<not> embeddedBySpec [] (getFollowingText [TextNode (js '' More text'')]) \<and>
   embeddedBySpec [] (getFollowingText [TextNode (js '', continued'')])"
proof -
  have a: "processLeafElement child sibs buf rs = \<lparr>buffer = buf @ trim (textContent child), results = rs\<rparr>
      \<longleftrightarrow> embeddedBySpec buf (getFollowingText sibs)"
  proof (cases "embeddedBySpec buf (getFollowingText sibs)")
    case True
    then show ?thesis
      by (simp add: processLeafElement_embedded)
  next
    case False
    then show ?thesis
      using results_grow [of rs buf]
      by (simp add: processLeafElement_standalone)
  qed
  have b: "processLeafElement child sibs buf rs =
      \<lparr>buffer = [],
       results = processBufferToResults buf rs @
         [PreservedElement (setTextContent child (normalizeText (textContent child)))]\<rparr>
      \<longleftrightarrow> \<not> embeddedBySpec buf (getFollowingText sibs)"
  proof (cases "embeddedBySpec buf (getFollowingText sibs)")
    case True
    then show ?thesis
      using results_grow [of rs buf]
      by (simp add: processLeafElement_embedded)
  next
    case False
    then show ?thesis
      by (simp add: processLeafElement_standalone)
  qed
  have c: "\<not> embeddedBySpec [] (getFollowingText [TextNode (js '' More text'')])"
    "embeddedBySpec [] (getFollowingText [TextNode (js '', continued'')])"
    by code_simp+
  show ?thesis
    using a b c processChildren_leaf [of child css sibs buf rs] by blast
qed

text \<open>
  The theorem at the link \<open><a> link </a>\<close> with an empty buffer, followed by the text
  \<open>" More text"\<close> or \<open>", continued"\<close>.
\<close>

theorem leaf_element_decision_witness:
  "(isElement (ElementNode ''A'' [] [TextNode (js '' link '')]) \<and>
    isVisible hiddenSpans (ElementNode ''A'' [] [TextNode (js '' link '')]) \<and>
    getElementProcessor (ElementNode ''A'' [] [TextNode (js '' link '')]) = ProcessLeafElement) \<and>
   processLeafElement (ElementNode ''A'' [] [TextNode (js '' link '')]) [TextNode (js '' More text'')] [] [] =
     \<lparr>buffer = [],
      results = [PreservedElement (ElementNode ''A'' [] [TextNode (js ''link'')])]\<rparr> \<and>
   processLeafElement (ElementNode ''A'' [] [TextNode (js '' link '')]) [TextNode (js '', continued'')] [] [] =
     \<lparr>buffer = js ''link'', results = []\<rparr> \<and>
   processChildren hiddenSpans
     (ElementNode ''A'' [] [TextNode (js '' link '')] # [TextNode (js '', continued'')]) [] [] =
     processChildren hiddenSpans [TextNode (js '', continued'')] (js ''link'') []"
proof -
  have h: "isElement (ElementNode ''A'' [] [TextNode (js '' link '')]) \<and>
    isVisible hiddenSpans (ElementNode ''A'' [] [TextNode (js '' link '')]) \<and>
    getElementProcessor (ElementNode ''A'' [] [TextNode (js '' link '')]) = ProcessLeafElement"
    by code_simp
  have v: "trim (js '' link '') = js ''link''" "normalizeText (js '' link '') = js ''link''"
    "js ''link'' \<noteq> []"
    by code_simp+
  have s: "processLeafElement (ElementNode ''A'' [] [TextNode (js '' link '')]) [TextNode (js '' More text'')] [] [] =
     \<lparr>buffer = [],
      results = [PreservedElement (ElementNode ''A'' [] [TextNode (js ''link'')])]\<rparr>"
    using leaf_element_decision [of "ElementNode ''A'' [] [TextNode (js '' link '')]" "[TextNode (js '' More text'')]" "[]" "[]" hiddenSpans]
    by (simp add: v)
  have e: "processLeafElement (ElementNode ''A'' [] [TextNode (js '' link '')]) [TextNode (js '', continued'')] [] [] =
     \<lparr>buffer = js ''link'', results = []\<rparr>"
    using leaf_element_decision [of "ElementNode ''A'' [] [TextNode (js '' link '')]" "[TextNode (js '', continued'')]" "[]" "[]" hiddenSpans]
    by (simp add: v)
  from h leaf_element_decision [of "ElementNode ''A'' [] [TextNode (js '' link '')]" "[TextNode (js '', continued'')]" "[]" "[]" hiddenSpans]
  have "processChildren hiddenSpans
     (ElementNode ''A'' [] [TextNode (js '' link '')] # [TextNode (js '', continued'')]) [] [] =
     (let st = processLeafElement (ElementNode ''A'' [] [TextNode (js '' link '')]) [TextNode (js '', continued'')] [] []
      in processChildren hiddenSpans [TextNode (js '', continued'')] (buffer st) (results st))"
    by blast
  with h s e show ?thesis
    by (simp only: Let_def walk_state.simps)
qed

text \<open>
  Claim C9. Flushing the buffer with \<open>processBufferToResults\<close> appends zero or more
  TextBlocks. The thematic-break handler and the standalone branch of the leaf handler
  append their PreservedElement after that flush and return an empty buffer; the
  non-leaf handler flushes, appends the blocks of the nested container and returns an
  empty buffer. So in the walker every step that appends a PreservedElement goes on with
  the later siblings from an empty buffer and from the flushed results followed by the
  new blocks. When the walker has visited all children, \<open>processContainer\<close> returns the
  results with the last buffer flushed into them; nothing is left to flush.
\<close>

theorem buffer_discipline:
  "(\<exists>ts. processBufferToResults buf rs = rs @ map TextBlock ts) \<and>
   processThematicBreak child buf rs =
     \<lparr>buffer = [],
      results = processBufferToResults buf rs @
        [PreservedElement (if textContent child \<noteq> []
                           then setTextContent child (normalizeText (textContent child)) else child)]\<rparr> \<and>
   (processLeafElement child sibs buf rs = \<lparr>buffer = buf @ trim (textContent child), results = rs\<rparr> \<or>
    processLeafElement child sibs buf rs =
      \<lparr>buffer = [],
       results = processBufferToResults buf rs @
         [PreservedElement (setTextContent child (normalizeText (textContent child)))]\<rparr>) \<and>
   processNonLeafElement css child buf rs =
     \<lparr>buffer = [], results = processBufferToResults buf rs @ processContainer css child\<rparr> \<and>
   (isElement child \<and> isVisible css child \<longrightarrow>
      (getElementProcessor child = ProcessThematicBreak \<longrightarrow>
         processChildren css (child # sibs) buf rs =
           processChildren css sibs []
             (processBufferToResults buf rs @
               [PreservedElement (if textContent child \<noteq> []
                                  then setTextContent child (normalizeText (textContent child))
                                  else child)])) \<and>
      (getElementProcessor child = ProcessLeafElement \<and>
       results (processLeafElement child sibs buf rs) \<noteq> rs \<longrightarrow>
         processChildren css (child # sibs) buf rs =
           processChildren css sibs []
             (processBufferToResults buf rs @
               [PreservedElement (setTextContent child (normalizeText (textContent child)))])) \<and>
      (getElementProcessor child = ProcessNonLeafElement \<longrightarrow>
         processChildren css (child # sibs) buf rs =
           processChildren css sibs [] (processBufferToResults buf rs @ processContainer css child))) \<and>
   processContainer css c =
     (let st = processChildren css (childNodes c) [] []
      in processBufferToResults (buffer st) (results st)) \<and>
   processBufferToResults [] (processContainer css c) = processContainer css c"
proof -
  have a: "\<exists>ts. processBufferToResults buf rs = rs @ map TextBlock ts"
    using processBufferToResults_blocks [of buf rs] by blast
  have b: "processThematicBreak child buf rs =
     \<lparr>buffer = [],
      results = processBufferToResults buf rs @
        [PreservedElement (if textContent child \<noteq> []
                           then setTextContent child (normalizeText (textContent child)) else child)]\<rparr>"
    by (simp add: processThematicBreak_def Let_def)
  have d: "processNonLeafElement css child buf rs =
     \<lparr>buffer = [], results = processBufferToResults buf rs @ processContainer css child\<rparr>"
    by (simp add: Let_def)
  have e: "processChildren css (child # sibs) buf rs =
           processChildren css sibs []
             (processBufferToResults buf rs @
               [PreservedElement (if textContent child \<noteq> []
                                  then setTextContent child (normalizeText (textContent child))
                                  else child)])"
    if "isElement child \<and> isVisible css child" "getElementProcessor child = ProcessThematicBreak"
    using that by (simp add: processChildren_element b del: processChildren.simps)
  have f: "processChildren css (child # sibs) buf rs =
           processChildren css sibs []
             (processBufferToResults buf rs @
               [PreservedElement (setTextContent child (normalizeText (textContent child)))])"
    if "isElement child \<and> isVisible css child"
      "getElementProcessor child = ProcessLeafElement \<and> results (processLeafElement child sibs buf rs) \<noteq> rs"
  proof -
    from that(2) processLeafElement_cases [of child sibs buf rs]
    have "processLeafElement child sibs buf rs =
      \<lparr>buffer = [],
       results = processBufferToResults buf rs @
         [PreservedElement (setTextContent child (normalizeText (textContent child)))]\<rparr>"
      by auto
    with that show ?thesis
      by (simp add: processChildren_element del: processChildren.simps)
  qed
  have g: "processChildren css (child # sibs) buf rs =
           processChildren css sibs [] (processBufferToResults buf rs @ processContainer css child)"
    if "isElement child \<and> isVisible css child" "getElementProcessor child = ProcessNonLeafElement"
    using that by (simp add: processChildren_element d del: processChildren.simps processNonLeafElement.simps)
  show ?thesis
    using a b d e f g processLeafElement_cases [of child sibs buf rs]
      processContainer_childNodes [of css c]
    by (simp del: processChildren.simps processNonLeafElement.simps processContainer.simps)
qed

text \<open>
  The theorem at an \<open>HR\<close> after the buffer \<open>"One"\<close>, at a link after a blank buffer and
  at a nested container after the buffer \<open>"One"\<close>.
\<close>

theorem buffer_discipline_witness:
  "(isElement (ElementNode ''HR'' [] []) \<and> isVisible hiddenSpans (ElementNode ''HR'' [] []) \<and>
    getElementProcessor (ElementNode ''HR'' [] []) = ProcessThematicBreak) \<and>
   (isElement (ElementNode ''A'' [] [TextNode (js ''link'')]) \<and>
    isVisible hiddenSpans (ElementNode ''A'' [] [TextNode (js ''link'')]) \<and>
    getElementProcessor (ElementNode ''A'' [] [TextNode (js ''link'')]) = ProcessLeafElement \<and>
    results (processLeafElement (ElementNode ''A'' [] [TextNode (js ''link'')]) [] (js '' '') []) \<noteq> []) \<and>
   (isElement (ElementNode ''DIV'' [] [ElementNode ''B'' [] [TextNode (js ''x'')]]) \<and>
    isVisible hiddenSpans (ElementNode ''DIV'' [] [ElementNode ''B'' [] [TextNode (js ''x'')]]) \<and>
    getElementProcessor (ElementNode ''DIV'' [] [ElementNode ''B'' [] [TextNode (js ''x'')]]) =
      ProcessNonLeafElement) \<and>
   processChildren hiddenSpans [ElementNode ''HR'' [] []] (js ''One'') [] =
     \<lparr>buffer = [], results = [TextBlock (js ''One''), PreservedElement (ElementNode ''HR'' [] [])]\<rparr> \<and>
   processChildren hiddenSpans [ElementNode ''A'' [] [TextNode (js ''link'')]] (js '' '') [] =
     \<lparr>buffer = [], results = [PreservedElement (ElementNode ''A'' [] [TextNode (js ''link'')])]\<rparr> \<and>
   processChildren hiddenSpans [ElementNode ''DIV'' [] [ElementNode ''B'' [] [TextNode (js ''x'')]]]
       (js ''One'') [] =
     \<lparr>buffer = [],
      results = [TextBlock (js ''One''), PreservedElement (ElementNode ''B'' [] [TextNode (js ''x'')])]\<rparr>"
proof -
  have h1: "isElement (ElementNode ''HR'' [] []) \<and> isVisible hiddenSpans (ElementNode ''HR'' [] [])"
    "getElementProcessor (ElementNode ''HR'' [] []) = ProcessThematicBreak"
    by code_simp+
  have h2: "isElement (ElementNode ''A'' [] [TextNode (js ''link'')]) \<and>
    isVisible hiddenSpans (ElementNode ''A'' [] [TextNode (js ''link'')])"
    "getElementProcessor (ElementNode ''A'' [] [TextNode (js ''link'')]) = ProcessLeafElement \<and>
     results (processLeafElement (ElementNode ''A'' [] [TextNode (js ''link'')]) [] (js '' '') []) \<noteq> []"
    by code_simp+
  have h3: "isElement (ElementNode ''DIV'' [] [ElementNode ''B'' [] [TextNode (js ''x'')]]) \<and>
    isVisible hiddenSpans (ElementNode ''DIV'' [] [ElementNode ''B'' [] [TextNode (js ''x'')]])"
    "getElementProcessor (ElementNode ''DIV'' [] [ElementNode ''B'' [] [TextNode (js ''x'')]]) =
      ProcessNonLeafElement"
    by code_simp+
  have v: "processBufferToResults (js ''One'') [] = [TextBlock (js ''One'')]"
    "processBufferToResults (js '' '') [] = []"
    "normalizeText (js ''link'') = js ''link''" "js ''link'' \<noteq> []"
    "processContainer hiddenSpans (ElementNode ''DIV'' [] [ElementNode ''B'' [] [TextNode (js ''x'')]]) =
       [PreservedElement (ElementNode ''B'' [] [TextNode (js ''x'')])]"
    by code_simp+
  have r1: "processChildren hiddenSpans [ElementNode ''HR'' [] []] (js ''One'') [] =
     \<lparr>buffer = [], results = [TextBlock (js ''One''), PreservedElement (ElementNode ''HR'' [] [])]\<rparr>"
    using h1 buffer_discipline [of "js ''One''" "[]" "ElementNode ''HR'' [] []" "[]" hiddenSpans]
    by (simp add: v del: processChildren.simps(2))
  have r2: "processChildren hiddenSpans [ElementNode ''A'' [] [TextNode (js ''link'')]] (js '' '') [] =
     \<lparr>buffer = [], results = [PreservedElement (ElementNode ''A'' [] [TextNode (js ''link'')])]\<rparr>"
    using h2 buffer_discipline [of "js '' ''" "[]" "ElementNode ''A'' [] [TextNode (js ''link'')]" "[]" hiddenSpans]
    by (simp add: v del: processChildren.simps(2))
  have r3: "processChildren hiddenSpans [ElementNode ''DIV'' [] [ElementNode ''B'' [] [TextNode (js ''x'')]]]
       (js ''One'') [] =
     \<lparr>buffer = [],
      results = [TextBlock (js ''One''), PreservedElement (ElementNode ''B'' [] [TextNode (js ''x'')])]\<rparr>"
    using h3 buffer_discipline [of "js ''One''" "[]" "ElementNode ''DIV'' [] [ElementNode ''B'' [] [TextNode (js ''x'')]]"
        "[]" hiddenSpans]
    by (simp add: v del: processChildren.simps(2) processContainer.simps)
  from h1 h2 h3 r1 r2 r3 show ?thesis
    by blast
qed

text \<open>
  Claim C10, as the code has it. The two ways of flushing differ. \<open>flushLineBuffer\<close>, which
  the text node handler calls after every line that is followed by another, emits the
  whole buffer as at most one TextBlock (trimmed) and never calls the splitter.
  \<open>processBufferToResults\<close>, which the line-break, thematic-break and non-leaf handlers
  and the end of \<open>processContainer\<close> use, runs \<open>splitBySentences\<close> on the buffer and emits
  one TextBlock per fragment that is not empty after trimming. On the buffer \<open>"A. B"\<close>
  the first gives the one block \<open>"A. B"\<close> and the second the two blocks \<open>"A."\<close> and
  \<open>"B"\<close>; a walk reaches both: the text nodes \<open>"A. "\<close>, \<open>"B\nC"\<close> give \<open>"A. B"\<close>, \<open>"C"\<close>,
  while \<open>"A. "\<close>, \<open>"B"\<close> followed by a \<open>BR\<close> element, by an \<open>HR\<close> element, by a nested
  container or by the end of the container give \<open>"A."\<close>, \<open>"B"\<close> first. The leaf handler
  is different: it reaches its flush only with a buffer that is empty after trimming, so
  a leaf element is either merged into the buffer with no flush at all, or it is
  standalone and its flush emits no TextBlock.
\<close>

theorem flush_paths_differ:
  "flushLineBuffer buf rs =
     \<lparr>buffer = [], results = rs @ (if trim buf = [] then [] else [TextBlock (trim buf)])\<rparr> \<and>
   processLines (line # next # rest) buf rs =
     (let st = (if containsPunct line then processLineForSentences line buf rs
                else \<lparr>buffer = buf @ line, results = rs\<rparr>)
      in processLines (next # rest) [] (results (flushLineBuffer (buffer st) (results st)))) \<and>
   processBufferToResults buf rs =
     rs @ map TextBlock (if trim buf = [] then []
                         else map trim (filter (\<lambda>s. trim s \<noteq> []) (splitBySentences buf))) \<and>
   processLineBreak child buf rs = \<lparr>buffer = [], results = processBufferToResults buf rs\<rparr> \<and>
   results (processThematicBreak child buf rs) =
     processBufferToResults buf rs @
       [PreservedElement (if textContent child \<noteq> []
                          then setTextContent child (normalizeText (textContent child)) else child)] \<and>
   (processLeafElement child sibs buf rs = \<lparr>buffer = buf @ trim (textContent child), results = rs\<rparr> \<or>
    (trim buf = [] \<and>
     processLeafElement child sibs buf rs =
       \<lparr>buffer = [],
        results = rs @ [PreservedElement (setTextContent child (normalizeText (textContent child)))]\<rparr>)) \<and>
   results (processNonLeafElement css child buf rs) =
     processBufferToResults buf rs @ processContainer css child \<and>
   processContainer css c =
     (let st = processChildren css (childNodes c) [] []
      in processBufferToResults (buffer st) (results st)) \<and>
   flushLineBuffer (js ''A. B'') [] = \<lparr>buffer = [], results = [TextBlock (js ''A. B'')]\<rparr> \<and>
   processBufferToResults (js ''A. B'') [] = [TextBlock (js ''A.''), TextBlock (js ''B'')] \<and>
   processContainer css (ElementNode t a [TextNode (js ''A. ''), TextNode (js ''B'' @ 0x0A # js ''C'')]) =
     [TextBlock (js ''A. B''), TextBlock (js ''C'')] \<and>
   processContainer hiddenSpans
     (ElementNode t a [TextNode (js ''A. ''), TextNode (js ''B''), ElementNode ''BR'' [] [],
                       TextNode (js ''C'')]) =
     [TextBlock (js ''A.''), TextBlock (js ''B''), TextBlock (js ''C'')] \<and>
   processContainer hiddenSpans
     (ElementNode t a [TextNode (js ''A. ''), TextNode (js ''B''), ElementNode ''HR'' [] []]) =
     [TextBlock (js ''A.''), TextBlock (js ''B''), PreservedElement (ElementNode ''HR'' [] [])] \<and>
   processContainer hiddenSpans
     (ElementNode t a [TextNode (js ''A. ''), TextNode (js ''B''),
                       ElementNode ''DIV'' [] [ElementNode ''B'' [] [TextNode (js ''x'')]]]) =
     [TextBlock (js ''A.''), TextBlock (js ''B''),
      PreservedElement (ElementNode ''B'' [] [TextNode (js ''x'')])] \<and>
   processContainer css (ElementNode t a [TextNode (js ''A. ''), TextNode (js ''B'')]) =
     [TextBlock (js ''A.''), TextBlock (js ''B'')]"
proof -
  have a: "flushLineBuffer buf rs =
     \<lparr>buffer = [], results = rs @ (if trim buf = [] then [] else [TextBlock (trim buf)])\<rparr>"
    by (simp add: flushLineBuffer_def)
  have b: "processLineBreak child buf rs = \<lparr>buffer = [], results = processBufferToResults buf rs\<rparr>"
    by (simp add: processLineBreak_def)
  have d: "results (processThematicBreak child buf rs) =
     processBufferToResults buf rs @
       [PreservedElement (if textContent child \<noteq> []
                          then setTextContent child (normalizeText (textContent child)) else child)]"
    by (simp add: processThematicBreak_def Let_def)
  have f: "results (processNonLeafElement css child buf rs) =
     processBufferToResults buf rs @ processContainer css child"
    by (simp add: Let_def)
  have x: "flushLineBuffer (js ''A. B'') [] = \<lparr>buffer = [], results = [TextBlock (js ''A. B'')]\<rparr>"
    "processBufferToResults (js ''A. B'') [] = [TextBlock (js ''A.''), TextBlock (js ''B'')]"
    "processContainer css (ElementNode t a [TextNode (js ''A. ''), TextNode (js ''B'' @ 0x0A # js ''C'')]) =
     [TextBlock (js ''A. B''), TextBlock (js ''C'')]"
    "processContainer hiddenSpans
     (ElementNode t a [TextNode (js ''A. ''), TextNode (js ''B''), ElementNode ''BR'' [] [],
                       TextNode (js ''C'')]) =
     [TextBlock (js ''A.''), TextBlock (js ''B''), TextBlock (js ''C'')]"
    "processContainer hiddenSpans
     (ElementNode t a [TextNode (js ''A. ''), TextNode (js ''B''), ElementNode ''HR'' [] []]) =
     [TextBlock (js ''A.''), TextBlock (js ''B''), PreservedElement (ElementNode ''HR'' [] [])]"
    "processContainer hiddenSpans
     (ElementNode t a [TextNode (js ''A. ''), TextNode (js ''B''),
                       ElementNode ''DIV'' [] [ElementNode ''B'' [] [TextNode (js ''x'')]]]) =
     [TextBlock (js ''A.''), TextBlock (js ''B''),
      PreservedElement (ElementNode ''B'' [] [TextNode (js ''x'')])]"
    "processContainer css (ElementNode t a [TextNode (js ''A. ''), TextNode (js ''B'')]) =
     [TextBlock (js ''A.''), TextBlock (js ''B'')]"
    by code_simp+
  show ?thesis
    using a b d f x processLines_flush [of line "next" rest buf rs]
      processLeafElement_flush_blank [of child sibs buf rs]
      processBufferToResults_blocks [of buf rs] processContainer_childNodes [of css c]
    by (simp del: processLines.simps processChildren.simps processNonLeafElement.simps
          processContainer.simps)
qed

text \<open>
  Claim C10 as stated fails for the standalone leaf, which it lists among the flushes
  that run the splitter again. With the buffer \<open>"A. B"\<close>, which
  \<open>processBufferToResults\<close> splits into two blocks, the leaf handler merges the link into
  the buffer and emits nothing; with a blank buffer the link is standalone and the only
  block emitted is the link.
\<close>

theorem standalone_leaf_flush_emits_no_text:
  "processBufferToResults (js ''A. B'') [] = [TextBlock (js ''A.''), TextBlock (js ''B'')] \<and>
   processLeafElement (ElementNode ''A'' [] [TextNode (js ''link'')]) [] (js ''A. B'') [] =
     \<lparr>buffer = js ''A. Blink'', results = []\<rparr> \<and>
   processLeafElement (ElementNode ''A'' [] [TextNode (js ''link'')]) [] (js ''  '') [] =
     \<lparr>buffer = [], results = [PreservedElement (ElementNode ''A'' [] [TextNode (js ''link'')])]\<rparr>"
  by code_simp

end
